theory Spec2Isabelle
  imports Main "HOL-Library.Log_Nat"
begin

section \<open>JavaScript numbers\<close>

text \<open>
  A JavaScript number is an IEEE 754 binary64 value: NaN, the two infinities, the two
  zeros, or a non-zero finite value. \<open>Fin 0\<close> is the positive zero and \<open>NZero\<close> the
  negative one; every other finite value is \<open>Fin q\<close> with \<open>q\<close> its exact
  rational value.
\<close>

datatype jsnum = NaN | PInf | NInf | NZero | Fin rat

text \<open>
  Rounding of an exact result to binary64, to nearest with ties to even.
  \<open>exponent q\<close> is the binade of a positive \<open>q\<close>: \<open>2 ^ e \<le> q < 2 ^ (e + 1)\<close>.
  The spacing of the doubles around \<open>q\<close> is \<open>ulp q\<close>: 52 fractional bits below the
  binade, and the fixed spacing \<open>2 ^ - 1074\<close> in the subnormal range.
\<close>

definition exponent :: "rat \<Rightarrow> int" where
  "exponent q = (let (n, d) = quotient_of q;
                     k = int (floorlog 2 (nat n)) - int (floorlog 2 (nat d))
                 in if 2 powi k \<le> q then k else k - 1)"

definition round_half_even :: "rat \<Rightarrow> int" where
  "round_half_even x = (let f = \<lfloor>x\<rfloor>; d = x - of_int f
     in if d < 1 / 2 then f else if 1 / 2 < d then f + 1 else if even f then f else f + 1)"

definition ulp :: "rat \<Rightarrow> rat" where
  "ulp q = 2 powi (max (exponent q) (- 1022) - 52)"

definition round_pos :: "rat \<Rightarrow> rat" where
  "round_pos q = of_int (round_half_even (q / ulp q)) * ulp q"

definition max_double :: rat where
  "max_double = (2 ^ 53 - 1) * 2 ^ 971"

definition round_double :: "rat \<Rightarrow> jsnum" where
  "round_double q =
     (if q = 0 then Fin 0
      else if 0 < q then (let y = round_pos q in if max_double < y then PInf else Fin y)
      else (let y = round_pos (- q) in
            if max_double < y then NInf else if y = 0 then NZero else Fin (- y)))"

text \<open>A rational is a double when rounding leaves it unchanged.\<close>

definition is_double :: "rat \<Rightarrow> bool" where
  "is_double q = (round_double q = Fin q)"

fun is_neg :: "jsnum \<Rightarrow> bool" where
  "is_neg NInf = True"
| "is_neg NZero = True"
| "is_neg (Fin q) = (q < 0)"
| "is_neg _ = False"

fun is_zero :: "jsnum \<Rightarrow> bool" where
  "is_zero NZero = True"
| "is_zero (Fin q) = (q = 0)"
| "is_zero _ = False"

fun is_inf :: "jsnum \<Rightarrow> bool" where
  "is_inf PInf = True"
| "is_inf NInf = True"
| "is_inf _ = False"

fun val :: "jsnum \<Rightarrow> rat" where
  "val (Fin q) = q"
| "val _ = 0"

definition signed_inf :: "bool \<Rightarrow> jsnum" where
  "signed_inf neg = (if neg then NInf else PInf)"

definition signed_zero :: "bool \<Rightarrow> jsnum" where
  "signed_zero neg = (if neg then NZero else Fin 0)"

text \<open>The operators \<open>*\<close>, \<open>/\<close>, \<open>+\<close> and \<open>-\<close> on numbers.\<close>

definition fmul :: "jsnum \<Rightarrow> jsnum \<Rightarrow> jsnum" where
  "fmul x y =
     (if x = NaN \<or> y = NaN then NaN
      else if (is_inf x \<and> is_zero y) \<or> (is_zero x \<and> is_inf y) then NaN
      else if is_inf x \<or> is_inf y then signed_inf (is_neg x \<noteq> is_neg y)
      else if is_zero x \<or> is_zero y then signed_zero (is_neg x \<noteq> is_neg y)
      else round_double (val x * val y))"

definition fdiv :: "jsnum \<Rightarrow> jsnum \<Rightarrow> jsnum" where
  "fdiv x y =
     (if x = NaN \<or> y = NaN then NaN
      else if (is_inf x \<and> is_inf y) \<or> (is_zero x \<and> is_zero y) then NaN
      else if is_inf x \<or> is_zero y then signed_inf (is_neg x \<noteq> is_neg y)
      else if is_zero x \<or> is_inf y then signed_zero (is_neg x \<noteq> is_neg y)
      else round_double (val x / val y))"

definition fneg :: "jsnum \<Rightarrow> jsnum" where
  "fneg x = (case x of NaN \<Rightarrow> NaN | PInf \<Rightarrow> NInf | NInf \<Rightarrow> PInf | NZero \<Rightarrow> Fin 0
             | Fin q \<Rightarrow> if q = 0 then NZero else Fin (- q))"

definition fadd :: "jsnum \<Rightarrow> jsnum \<Rightarrow> jsnum" where
  "fadd x y =
     (if x = NaN \<or> y = NaN then NaN
      else if is_inf x \<and> is_inf y then (if x = y then x else NaN)
      else if is_inf x then x
      else if is_inf y then y
      else if val x + val y = 0 then signed_zero (is_zero x \<and> is_neg x \<and> is_neg y)
      else round_double (val x + val y))"

definition fsub :: "jsnum \<Rightarrow> jsnum \<Rightarrow> jsnum" where
  "fsub x y = fadd x (fneg y)"

text \<open>The comparisons \<open><=\<close>, \<open><\<close>, \<open>>=\<close> and \<open>>\<close>: false whenever an operand is NaN.\<close>

fun fle :: "jsnum \<Rightarrow> jsnum \<Rightarrow> bool" where
  "fle NaN _ = False"
| "fle _ NaN = False"
| "fle NInf _ = True"
| "fle _ PInf = True"
| "fle PInf _ = False"
| "fle _ NInf = False"
| "fle x y = (val x \<le> val y)"

fun flt :: "jsnum \<Rightarrow> jsnum \<Rightarrow> bool" where
  "flt NaN _ = False"
| "flt _ NaN = False"
| "flt PInf _ = False"
| "flt _ NInf = False"
| "flt NInf _ = True"
| "flt _ PInf = True"
| "flt x y = (val x < val y)"

definition fge :: "jsnum \<Rightarrow> jsnum \<Rightarrow> bool" where
  "fge x y = fle y x"

definition fgt :: "jsnum \<Rightarrow> jsnum \<Rightarrow> bool" where
  "fgt x y = flt y x"

text \<open>\<open>Math.floor\<close> and \<open>Math.ceil\<close>.\<close>

definition ffloor :: "jsnum \<Rightarrow> jsnum" where
  "ffloor x = (case x of Fin q \<Rightarrow> Fin (of_int \<lfloor>q\<rfloor>) | _ \<Rightarrow> x)"

definition fceil :: "jsnum \<Rightarrow> jsnum" where
  "fceil x = (case x of
                Fin q \<Rightarrow> if - 1 < q \<and> q < 0 then NZero else Fin (of_int \<lceil>q\<rceil>)
              | _ \<Rightarrow> x)"

text \<open>
  \<open>Number(x.toFixed(2))\<close>. \<open>toFixed(2)\<close> prints the decimal with two fractional digits
  nearest to the exact value of \<open>x\<close> (the larger one on a tie, on the absolute value, the
  sign being printed apart), and \<open>Number\<close> reads that decimal back as a double. From
  \<open>10 ^ 21\<close> on, and for NaN and the infinities, \<open>toFixed\<close> prints the number as
  \<open>String\<close> does, and reading it back returns \<open>x\<close>.
\<close>

definition toFixed2 :: "jsnum \<Rightarrow> jsnum" where
  "toFixed2 x =
     (case x of
        Fin q \<Rightarrow>
          if 10 ^ 21 \<le> \<bar>q\<bar> then x
          else let n = \<lfloor>\<bar>q\<bar> * 100 + 1 / 2\<rfloor> in
            if q < 0 then (if n = 0 then NZero else round_double (- (of_int n / 100)))
            else round_double (of_int n / 100)
      | NZero \<Rightarrow> Fin 0
      | _ \<Rightarrow> x)"

text \<open>
  The values a count of classes can take in the result: a non-negative integer, or
  \<open>Infinity\<close>.
\<close>

fun is_count :: "jsnum \<Rightarrow> bool" where
  "is_count PInf = True"
| "is_count (Fin q) = (0 \<le> q \<and> of_int \<lfloor>q\<rfloor> = q)"
| "is_count _ = False"

section \<open>JavaScript values and \<open>Number(v)\<close>\<close>

text \<open>
  The primitive values, which are what a field of a document of the schema (of type
  \<open>String\<close> or \<open>Number\<close>) can hold, and the values of a parsed JSON request body,
  where arrays and objects occur as well.
\<close>

datatype jsprim = Undefined | Null | Bool bool | Num jsnum | Str string

datatype jsval = Prim jsprim | Arr "jsval list" | Obj "(string \<times> jsval) list"

text \<open>
  Truthiness, as \<open>!v\<close> and \<open>v || d\<close> test it, and the loose comparison \<open>v == null\<close>.
  Arrays and objects are truthy and differ from \<open>null\<close>.
\<close>

fun truthy :: "jsval \<Rightarrow> bool" where
  "truthy (Prim Undefined) = False"
| "truthy (Prim Null) = False"
| "truthy (Prim (Bool b)) = b"
| "truthy (Prim (Num n)) = (n \<noteq> NaN \<and> \<not> is_zero n)"
| "truthy (Prim (Str s)) = (s \<noteq> [])"
| "truthy (Arr xs) = True"
| "truthy (Obj kvs) = True"

fun eq_null :: "jsval \<Rightarrow> bool" where
  "eq_null (Prim Undefined) = True"
| "eq_null (Prim Null) = True"
| "eq_null _ = False"

text \<open>
  Reading a string as a number: white space around an optional numeric literal, which is
  a signed decimal (digits, fraction, exponent, or \<open>Infinity\<close>) or an unsigned binary,
  octal or hexadecimal integer. Characters are the code units below 256.
\<close>

definition is_space :: "char \<Rightarrow> bool" where
  "is_space c = (c \<in> set [CHR 0x09, CHR 0x0A, CHR 0x0B, CHR 0x0C, CHR 0x0D, CHR 0x20, CHR 0xA0])"

definition digit_value :: "char \<Rightarrow> nat option" where
  "digit_value c =
     (let n = of_char c :: nat in
      if 48 \<le> n \<and> n \<le> 57 then Some (n - 48)
      else if 97 \<le> n \<and> n \<le> 102 then Some (n - 87)
      else if 65 \<le> n \<and> n \<le> 70 then Some (n - 55)
      else None)"

definition is_digit :: "nat \<Rightarrow> char \<Rightarrow> bool" where
  "is_digit base c = (case digit_value c of Some d \<Rightarrow> d < base | None \<Rightarrow> False)"

definition digits_value :: "nat \<Rightarrow> string \<Rightarrow> nat" where
  "digits_value base ds = foldl (\<lambda>acc c. acc * base + the (digit_value c)) 0 ds"

definition all_digits :: "nat \<Rightarrow> string \<Rightarrow> bool" where
  "all_digits base ds = (ds \<noteq> [] \<and> list_all (is_digit base) ds)"

text \<open>The exponent part: \<open>e\<close> or \<open>E\<close>, an optional sign, digits; \<open>None\<close> when malformed.\<close>

definition exponent_part :: "string \<Rightarrow> int option" where
  "exponent_part s =
     (case s of
        [] \<Rightarrow> Some 0
      | c # t \<Rightarrow>
          if c = CHR ''e'' \<or> c = CHR ''E'' then
            (case t of
               [] \<Rightarrow> None
             | d # u \<Rightarrow>
                 if d = CHR ''-'' then
                   (if all_digits 10 u then Some (- int (digits_value 10 u)) else None)
                 else if d = CHR ''+'' then
                   (if all_digits 10 u then Some (int (digits_value 10 u)) else None)
                 else if all_digits 10 t then Some (int (digits_value 10 t)) else None)
          else None)"

text \<open>An unsigned decimal literal: its exact value, \<open>None\<close> when malformed.\<close>

definition unsigned_decimal :: "string \<Rightarrow> rat option" where
  "unsigned_decimal s =
     (let ip = takeWhile (is_digit 10) s;
          r1 = dropWhile (is_digit 10) s;
          dot = (r1 \<noteq> [] \<and> hd r1 = CHR ''.'');
          fp = (if dot then takeWhile (is_digit 10) (tl r1) else []);
          r2 = (if dot then dropWhile (is_digit 10) (tl r1) else r1)
      in if ip = [] \<and> fp = [] then None
         else case exponent_part r2 of
                None \<Rightarrow> None
              | Some e \<Rightarrow>
                  Some (of_nat (digits_value 10 (ip @ fp)) * 10 powi (e - int (length fp))))"

definition non_decimal :: "string \<Rightarrow> nat option" where
  "non_decimal s =
     (case s of
        z # x # ds \<Rightarrow>
          if z \<noteq> CHR ''0'' then None
          else if (x = CHR ''x'' \<or> x = CHR ''X'') \<and> all_digits 16 ds
            then Some (digits_value 16 ds)
          else if (x = CHR ''o'' \<or> x = CHR ''O'') \<and> all_digits 8 ds
            then Some (digits_value 8 ds)
          else if (x = CHR ''b'' \<or> x = CHR ''B'') \<and> all_digits 2 ds
            then Some (digits_value 2 ds)
          else None
      | _ \<Rightarrow> None)"

definition string_to_number :: "string \<Rightarrow> jsnum" where
  "string_to_number s =
     (let t = rev (dropWhile is_space (rev (dropWhile is_space s)));
          neg = (t \<noteq> [] \<and> hd t = CHR ''-'');
          u = (if t \<noteq> [] \<and> (hd t = CHR ''-'' \<or> hd t = CHR ''+'') then tl t else t)
      in if t = [] then Fin 0
         else if u = ''Infinity'' then signed_inf neg
         else case unsigned_decimal u of
                Some q \<Rightarrow> if q = 0 then signed_zero neg
                          else round_double (if neg then - q else q)
              | None \<Rightarrow>
                  (case non_decimal t of
                     Some n \<Rightarrow> round_double (of_nat n)
                   | None \<Rightarrow> NaN))"

text \<open>\<open>Number(v)\<close> on a primitive value.\<close>

fun Number :: "jsprim \<Rightarrow> jsnum" where
  "Number Undefined = NaN"
| "Number Null = Fin 0"
| "Number (Bool b) = (if b then Fin 1 else Fin 0)"
| "Number (Num n) = n"
| "Number (Str s) = string_to_number s"

section \<open>The attendance calculation\<close>

text \<open>
  The message is a template literal: its text pieces and the numbers interpolated
  between them.
\<close>

datatype part = Lit string | Val jsnum

record stats =
  currentPercent :: jsnum
  canBunk :: jsnum
  needToAttend :: jsnum
  message :: "part list"

definition calculateAttendance :: "jsprim \<Rightarrow> jsprim \<Rightarrow> jsprim \<Rightarrow> stats" where
  "calculateAttendance attended0 total0 requiredPercent0 =
     (let attended = Number attended0;
          total' = Number total0;
          requiredPercent = Number requiredPercent0
      in if fle total' (Fin 0) then
           \<lparr>currentPercent = Fin 0, canBunk = Fin 0, needToAttend = Fin 0,
            message = [Lit ''No classes conducted yet.'']\<rparr>
         else
           let r = fdiv requiredPercent (Fin 100);
               cp = fmul (fdiv attended total') (Fin 100);
               canBunk =
                 (if fge cp requiredPercent
                  then (let nMax = ffloor (fdiv (fsub attended (fmul r total')) r)
                        in if fgt nMax (Fin 0) then nMax else Fin 0)
                  else Fin 0);
               needToAttend =
                 (if fge cp requiredPercent then Fin 0
                  else (let xMin = fceil (fdiv (fsub (fmul r total') attended)
                                               (fsub (Fin 1) r))
                        in if fgt xMin (Fin 0) then xMin else Fin 0))
           in \<lparr>currentPercent = toFixed2 cp,
               canBunk = canBunk,
               needToAttend = needToAttend,
               message =
                 (if fge cp requiredPercent
                  then [Lit ''You are safe. You can bunk around '', Val canBunk,
                        Lit '' classes.'']
                  else [Lit ''You need to attend around '', Val needToAttend,
                        Lit '' more classes to reach '', Val requiredPercent,
                        Lit ''%.''])\<rparr>)"

section \<open>POST /api/subjects\<close>

text \<open>
  The fields the handler reads from the request body and hands to \<open>Subject.create\<close>.
  A field absent from the body reads as \<open>undefined\<close>.
\<close>

record subject =
  subjectName :: jsval
  total :: jsval
  attended :: jsval
  requiredPercent :: jsval

definition field :: "(string \<rightharpoonup> jsval) \<Rightarrow> string \<Rightarrow> jsval" where
  "field body k = (case body k of None \<Rightarrow> Prim Undefined | Some v \<Rightarrow> v)"

text \<open>
  The document \<open>Subject.create\<close> returns: by \<open>SubjectSchema\<close> its fields are of type
  \<open>String\<close> and \<open>Number\<close>, so they hold primitive values.
\<close>

record document =
  doc_subjectName :: jsprim
  doc_total :: jsprim
  doc_attended :: jsprim
  doc_requiredPercent :: jsprim

datatype reply = Error string | Created document stats

record response =
  status :: nat
  reply :: reply

text \<open>
  The handler on the properties of a defined body: the required-fields check, and the
  fields passed to \<open>Subject.create\<close> when the check passes.
\<close>

definition new_subject :: "(string \<rightharpoonup> jsval) \<Rightarrow> response + subject" where
  "new_subject body =
     (let subjectName = field body ''subjectName'';
          total' = field body ''total'';
          attended = field body ''attended'';
          requiredPercent = field body ''requiredPercent''
      in if \<not> truthy subjectName \<or> eq_null total' \<or> eq_null attended
         then Inl \<lparr>status = 400, reply = Error ''Missing required fields''\<rparr>
         else Inr \<lparr>subjectName = subjectName, total = total', attended = attended,
                   requiredPercent = (if truthy requiredPercent then requiredPercent
                                      else Prim (Num (Fin 75)))\<rparr>)"

text \<open>
  The handler. \<open>body\<close> is \<open>req.body\<close>: \<open>None\<close> when it is \<open>undefined\<close> (the JSON
  middleware parsed no body), otherwise the parsed JSON value, an object or an array,
  given by its properties. The handler's first statement, inside its \<open>try\<close>,
  destructures \<open>req.body\<close>; on \<open>undefined\<close> that throws a \<open>TypeError\<close>, and the
  handler's \<open>catch\<close> answers 500. \<open>create\<close> is the persistence layer's
  \<open>Subject.create\<close>: on a store it returns the stored document and the new store, or
  \<open>None\<close> when it throws (a field that does not cast to the schema's type, a failed
  validation, a lost connection); the same \<open>catch\<close> turns that into the 500 response.
\<close>

definition post_subjects ::
  "(subject \<Rightarrow> 'db \<Rightarrow> (document \<times> 'db) option) \<Rightarrow> (string \<rightharpoonup> jsval) option \<Rightarrow> 'db
     \<Rightarrow> response \<times> 'db" where
  "post_subjects create body db =
     (case body of
        None \<Rightarrow> (\<lparr>status = 500, reply = Error ''Failed to create subject''\<rparr>, db)
      | Some props \<Rightarrow>
          (case new_subject props of
             Inl resp \<Rightarrow> (resp, db)
           | Inr sub \<Rightarrow>
               (case create sub db of
                  None \<Rightarrow> (\<lparr>status = 500, reply = Error ''Failed to create subject''\<rparr>, db)
                | Some (subject, db') \<Rightarrow>
                    (\<lparr>status = 201,
                      reply = Created subject
                        (calculateAttendance (doc_attended subject) (doc_total subject)
                           (doc_requiredPercent subject))\<rparr>, db'))))"

section \<open>Properties of rounding\<close>

subsection \<open>Floors, ceilings and powers of two\<close>

lemma floor_rat_numeral [simp]:
  "\<lfloor>numeral a / numeral b :: rat\<rfloor> = numeral a div numeral b"
  by (metis floor_divide_of_int_eq of_int_numeral)

lemma floor_rat_neg_numeral [simp]:
  "\<lfloor>- (numeral a / numeral b) :: rat\<rfloor> = - numeral a div numeral b"
  by (metis divide_minus_left floor_divide_of_int_eq of_int_neg_numeral of_int_numeral)

lemma floor_rat_one_numeral [simp]:
  "\<lfloor>1 / numeral b :: rat\<rfloor> = 1 div numeral b"
  by (metis floor_divide_of_int_eq of_int_1 of_int_numeral)

lemma floor_rat_neg_one_numeral [simp]:
  "\<lfloor>- (1 / numeral b) :: rat\<rfloor> = - 1 div numeral b"
  by (metis divide_minus_left floor_divide_of_int_eq of_int_1 of_int_minus of_int_numeral)

lemma ceiling_rat_numeral [simp]:
  "\<lceil>numeral a / numeral b :: rat\<rceil> = - (- numeral a div numeral b)"
  using ceiling_divide_eq_div[of "numeral a" "numeral b"] by (metis ceiling_def floor_rat_neg_numeral)

lemma ceiling_rat_neg_numeral [simp]:
  "\<lceil>- (numeral a / numeral b) :: rat\<rceil> = - (numeral a div numeral b)"
  by (simp add: ceiling_def)

lemma ceiling_rat_one_numeral [simp]:
  "\<lceil>1 / numeral b :: rat\<rceil> = - (- 1 div numeral b)"
  by (simp add: ceiling_def)

lemma ceiling_rat_neg_one_numeral [simp]:
  "\<lceil>- (1 / numeral b) :: rat\<rceil> = - (1 div numeral b)"
  by (simp add: ceiling_def)

lemma pow2_less_iff: "(2::rat) powi a < 2 powi b \<longleftrightarrow> a < b"
proof
  assume h: "(2::rat) powi a < 2 powi b"
  show "a < b"
  proof (rule ccontr)
    assume "\<not> a < b"
    then have "b \<le> a" by simp
    then have "(2::rat) powi b \<le> 2 powi a" by (intro power_int_increasing) simp_all
    with h show False by simp
  qed
next
  assume "a < b"
  then show "(2::rat) powi a < 2 powi b" by (intro power_int_strict_increasing) simp_all
qed

lemma pow2_le_iff: "(2::rat) powi a \<le> 2 powi b \<longleftrightarrow> a \<le> b"
  using pow2_less_iff[of b a] by (simp add: not_less[symmetric])

lemma floorlog2_bounds:
  fixes n :: int
  assumes "0 < n"
  shows "(2::rat) powi (int (floorlog 2 (nat n)) - 1) \<le> of_int n"
    and "of_int n < (2::rat) powi (int (floorlog 2 (nat n)))"
proof -
  let ?b = "floorlog 2 (nat n)"
  have pos: "0 < nat n" using assms by simp
  from floorlog_bounds[OF pos, of 2]
  have lo: "2 ^ (?b - 1) \<le> nat n" and hi: "nat n < 2 ^ ?b" by simp_all
  have b1: "1 \<le> ?b" using pos by (simp add: floorlog_def)
  have "(of_nat (2 ^ (?b - 1)) :: rat) \<le> of_nat (nat n)" using lo by (simp only: of_nat_le_iff)
  then have "(2::rat) ^ (?b - 1) \<le> of_int n" using assms by simp
  moreover have "int ?b - 1 = int (?b - 1)" using b1 by simp
  ultimately show "(2::rat) powi (int ?b - 1) \<le> of_int n" by (simp only: power_int_of_nat)
  have "(of_nat (nat n) :: rat) < of_nat (2 ^ ?b)" using hi by (simp only: of_nat_less_iff)
  then show "of_int n < (2::rat) powi (int ?b)" using assms by simp
qed

lemma exponent_bounds:
  assumes "0 < q"
  shows "2 powi (exponent q) \<le> q" and "q < 2 powi (exponent q + 1)"
proof -
  obtain n d where nd: "quotient_of q = (n, d)" by (cases "quotient_of q")
  have d: "0 < d" using nd by (rule quotient_of_denom_pos)
  have q: "q = of_int n / of_int d" using nd by (rule quotient_of_div)
  have n: "0 < n" using assms d q by (simp add: zero_less_divide_iff)
  define bn where "bn = int (floorlog 2 (nat n))"
  define bd where "bd = int (floorlog 2 (nat d))"
  define k where "k = bn - bd"
  have n1: "(2::rat) powi (bn - 1) \<le> of_int n" and n2: "of_int n < (2::rat) powi bn"
    using floorlog2_bounds[OF n] by (simp_all add: bn_def)
  have d1: "(2::rat) powi (bd - 1) \<le> of_int d" and d2: "of_int d < (2::rat) powi bd"
    using floorlog2_bounds[OF d] by (simp_all add: bd_def)
  have dpos: "(0::rat) < of_int d" using d by simp
  have lo: "2 powi (k - 1) \<le> q"
  proof -
    have "(2::rat) powi (k - 1) * of_int d \<le> 2 powi (k - 1) * 2 powi bd"
      using d2 by (intro mult_left_mono) simp_all
    also have "\<dots> = 2 powi (bn - 1)" by (simp add: k_def power_int_add[symmetric])
    also have "\<dots> \<le> of_int n" by (rule n1)
    finally show ?thesis using dpos by (simp add: q pos_le_divide_eq)
  qed
  have hi: "q < 2 powi (k + 1)"
  proof -
    have "of_int n < (2::rat) powi bn" by (rule n2)
    also have "\<dots> = 2 powi (k + 1) * 2 powi (bd - 1)" by (simp add: k_def power_int_add[symmetric])
    also have "\<dots> \<le> 2 powi (k + 1) * of_int d" using d1 by (intro mult_left_mono) simp_all
    finally show ?thesis using dpos by (simp add: q pos_divide_less_eq)
  qed
  have e: "exponent q = (if 2 powi k \<le> q then k else k - 1)"
    by (simp add: exponent_def nd k_def bn_def bd_def Let_def)
  show "2 powi (exponent q) \<le> q" using lo by (simp add: e)
  show "q < 2 powi (exponent q + 1)" using hi by (auto simp add: e not_le)
qed

lemma exponent_unique:
  assumes "2 powi e \<le> q" "q < 2 powi (e + 1)"
  shows "exponent q = e"
proof -
  have q: "0 < q" using assms(1) by (rule less_le_trans[rotated]) simp
  have 1: "(2::rat) powi (exponent q) < 2 powi (e + 1)"
    using exponent_bounds(1)[OF q] assms(2) by simp
  have 2: "(2::rat) powi e < 2 powi (exponent q + 1)"
    using exponent_bounds(2)[OF q] assms(1) by simp
  have "exponent q < e + 1" using 1 by (simp only: pow2_less_iff)
  moreover have "e < exponent q + 1" using 2 by (simp only: pow2_less_iff)
  ultimately show ?thesis by simp
qed

lemma exponent_mono:
  assumes "0 < x" "x \<le> y"
  shows "exponent x \<le> exponent y"
proof -
  have y: "0 < y" using assms by simp
  have "(2::rat) powi (exponent x) \<le> x" using exponent_bounds(1)[OF assms(1)] .
  also have "\<dots> \<le> y" by fact
  also have "\<dots> < 2 powi (exponent y + 1)" using exponent_bounds(2)[OF y] .
  finally have "exponent x < exponent y + 1" by (simp only: pow2_less_iff)
  then show ?thesis by simp
qed

lemma round_half_even_of_int [simp]: "round_half_even (of_int n) = n"
  by (simp add: round_half_even_def)

lemma round_half_even_ge_floor: "\<lfloor>x\<rfloor> \<le> round_half_even x"
  by (simp add: round_half_even_def Let_def)

lemma round_half_even_le_ceiling: "round_half_even x \<le> \<lceil>x\<rceil>"
proof -
  have "x - of_int \<lfloor>x\<rfloor> \<noteq> 0 \<Longrightarrow> \<lfloor>x\<rfloor> + 1 \<le> \<lceil>x\<rceil>"
    by (metis ceiling_altdef eq_iff_diff_eq_0 order_refl)
  moreover have "\<lfloor>x\<rfloor> \<le> \<lceil>x\<rceil>" by (rule floor_le_ceiling)
  ultimately show ?thesis by (auto simp add: round_half_even_def Let_def)
qed

lemma round_half_even_near: "\<bar>of_int (round_half_even x) - x\<bar> \<le> 1 / 2"
proof -
  have "of_int \<lfloor>x\<rfloor> \<le> x" "x < of_int \<lfloor>x\<rfloor> + 1" by linarith+
  then show ?thesis by (auto simp add: round_half_even_def Let_def abs_le_iff)
qed

lemma round_half_even_mono:
  assumes "x \<le> y"
  shows "round_half_even x \<le> round_half_even y"
proof (cases "\<lfloor>x\<rfloor> = \<lfloor>y\<rfloor>")
  case True
  then show ?thesis using assms by (auto simp add: round_half_even_def Let_def)
next
  case False
  then have "\<lfloor>x\<rfloor> < \<lfloor>y\<rfloor>" using floor_mono[OF assms] by simp
  then have "\<lceil>x\<rceil> \<le> \<lfloor>y\<rfloor>" by (metis ceiling_altdef floor_le_ceiling zless_imp_add1_zle order.strict_implies_order order_refl)
  then show ?thesis
    using round_half_even_le_ceiling[of x] round_half_even_ge_floor[of y] by linarith
qed

lemma round_half_even_eqI:
  assumes "\<bar>x - of_int m\<bar> < 1 / 2"
  shows "round_half_even x = m"
proof -
  have "\<bar>of_int (round_half_even x) - (of_int m :: rat)\<bar> < 1"
    using round_half_even_near[of x] assms by linarith
  then have "\<bar>(of_int (round_half_even x - m) :: rat)\<bar> < 1" by simp
  then have "\<bar>round_half_even x - m\<bar> < 1" by (metis of_int_abs of_int_less_1_iff)
  then show ?thesis by simp
qed

subsection \<open>Rounding a positive number\<close>

lemma pow2_add_eq: "a + b = c \<Longrightarrow> (2::rat) powi a * 2 powi b = 2 powi c"
  by (auto simp add: power_int_add)

lemma pow2_diff_eq: "a - b = c \<Longrightarrow> (2::rat) powi a / 2 powi b = 2 powi c"
  by (auto simp add: power_int_diff)

lemma ulp_pos [simp]: "0 < ulp q"
  by (simp add: ulp_def)

lemma ulp_nonneg [simp]: "0 \<le> ulp q"
  by (simp add: ulp_def)

lemma ulp_mono:
  assumes "0 < x" "x \<le> y"
  shows "ulp x \<le> ulp y"
proof -
  have "max (exponent x) (- 1022) - 52 \<le> max (exponent y) (- 1022) - 52"
    using exponent_mono[OF assms] by simp
  then show ?thesis unfolding ulp_def by (simp only: pow2_le_iff)
qed

lemma round_pos_nonneg:
  assumes "0 \<le> q"
  shows "0 \<le> round_pos q"
proof -
  have "0 \<le> q / ulp q" using assms by (intro divide_nonneg_pos) simp_all
  then have "0 \<le> \<lfloor>q / ulp q\<rfloor>" by simp
  then have "0 \<le> round_half_even (q / ulp q)"
    using round_half_even_ge_floor[of "q / ulp q"] by linarith
  then show ?thesis by (simp add: round_pos_def)
qed

lemma round_pos_upper:
  assumes "0 < q"
  shows "round_pos q \<le> 2 powi (max (exponent q) (- 1022) + 1)"
proof -
  define E where "E = max (exponent q) (- 1022)"
  have u: "ulp q = 2 powi (E - 52)" by (simp add: ulp_def E_def)
  have "q < 2 powi (exponent q + 1)" using exponent_bounds(2)[OF assms] .
  also have "\<dots> \<le> 2 powi (E + 1)" by (simp only: pow2_le_iff) (simp add: E_def)
  finally have "q < 2 powi (E + 1)" .
  then have "q / ulp q < 2 powi (E + 1) / 2 powi (E - 52)"
    by (simp add: u divide_strict_right_mono)
  also have "\<dots> = 2 powi 53" by (rule pow2_diff_eq) simp
  finally have "q / ulp q \<le> of_int (2 ^ 53)" by simp
  then have "\<lceil>q / ulp q\<rceil> \<le> 2 ^ 53" by (simp only: ceiling_le_iff)
  then have "round_half_even (q / ulp q) \<le> 2 ^ 53"
    using round_half_even_le_ceiling[of "q / ulp q"] by linarith
  then have "(of_int (round_half_even (q / ulp q)) :: rat) \<le> of_int (2 ^ 53)"
    by (simp only: of_int_le_iff)
  then have "round_pos q \<le> 2 ^ 53 * ulp q"
    by (simp add: round_pos_def mult_right_mono)
  also have "\<dots> = 2 powi 53 * 2 powi (E - 52)" by (simp add: u)
  also have "\<dots> = 2 powi (E + 1)" by (rule pow2_add_eq) simp
  finally show ?thesis by (simp add: E_def)
qed

lemma round_pos_lower:
  assumes "0 < q" "- 1022 \<le> exponent q"
  shows "2 powi (exponent q) \<le> round_pos q"
proof -
  define E where "E = exponent q"
  have u: "ulp q = 2 powi (E - 52)" using assms(2) by (simp add: ulp_def E_def max_def)
  have "2 powi E \<le> q" using exponent_bounds(1)[OF assms(1)] by (simp add: E_def)
  then have "2 powi E / 2 powi (E - 52) \<le> q / ulp q"
    by (simp add: u divide_right_mono)
  moreover have "(2::rat) powi E / 2 powi (E - 52) = 2 powi 52"
    by (rule pow2_diff_eq) simp
  ultimately have "of_int (2 ^ 52) \<le> q / ulp q" by simp
  then have "2 ^ 52 \<le> \<lfloor>q / ulp q\<rfloor>" by (simp only: le_floor_iff)
  then have "2 ^ 52 \<le> round_half_even (q / ulp q)"
    using round_half_even_ge_floor[of "q / ulp q"] by linarith
  then have "(of_int (2 ^ 52) :: rat) \<le> of_int (round_half_even (q / ulp q))"
    by (simp only: of_int_le_iff)
  then have "2 ^ 52 * ulp q \<le> round_pos q"
    by (simp add: round_pos_def mult_right_mono)
  moreover have "2 ^ 52 * ulp q = 2 powi 52 * 2 powi (E - 52)" by (simp add: u)
  moreover have "(2::rat) powi 52 * 2 powi (E - 52) = 2 powi E"
    by (rule pow2_add_eq) simp
  ultimately show ?thesis by (simp add: E_def)
qed

lemma round_pos_mono:
  assumes "0 < x" "x \<le> y"
  shows "round_pos x \<le> round_pos y"
proof (cases "ulp x = ulp y")
  case True
  have "x / ulp y \<le> y / ulp y" using assms(2) by (intro divide_right_mono) simp_all
  then have "round_half_even (x / ulp y) \<le> round_half_even (y / ulp y)"
    by (rule round_half_even_mono)
  then have "(of_int (round_half_even (x / ulp y)) :: rat) \<le> of_int (round_half_even (y / ulp y))"
    by (simp only: of_int_le_iff)
  then show ?thesis by (simp add: round_pos_def True mult_right_mono)
next
  case False
  have y: "0 < y" using assms by simp
  have le: "exponent x \<le> exponent y" using exponent_mono[OF assms] .
  have ne: "max (exponent x) (- 1022) \<noteq> max (exponent y) (- 1022)"
    using False by (auto simp add: ulp_def)
  then have lt: "max (exponent x) (- 1022) + 1 \<le> exponent y" and ny: "- 1022 \<le> exponent y"
    using le by (auto simp add: max_def split: if_splits)
  have "round_pos x \<le> 2 powi (max (exponent x) (- 1022) + 1)" using round_pos_upper[OF assms(1)] .
  also have "\<dots> \<le> 2 powi (exponent y)" using lt by (simp only: pow2_le_iff)
  also have "\<dots> \<le> round_pos y" using round_pos_lower[OF y ny] .
  finally show ?thesis .
qed

lemma round_pos_eqI:
  assumes "2 powi (e + 52) \<le> q" "q < 2 powi (e + 53)" "- 1074 \<le> e"
    and "\<bar>q / 2 powi e - of_int m\<bar> < 1 / 2"
  shows "round_pos q = of_int m * 2 powi e"
proof -
  have "exponent q = e + 52" using assms(1,2) by (intro exponent_unique) (simp_all add: add.commute)
  moreover have "max (e + 52) (- 1022) - 52 = e" using assms(3) by simp
  ultimately have "ulp q = 2 powi e" by (simp only: ulp_def)
  then show ?thesis using round_half_even_eqI[OF assms(4)] by (simp only: round_pos_def)
qed

lemma round_pos_fix:
  assumes "0 < m" "m < 2 ^ 53" "- 1074 \<le> e"
  shows "round_pos (of_int m * 2 powi e) = of_int m * 2 powi e"
proof -
  define q :: rat where "q = of_int m * 2 powi e"
  have q: "0 < q" using assms(1) by (simp add: q_def)
  have "(of_int m :: rat) < of_int (2 ^ 53)" using assms(2) by (simp only: of_int_less_iff)
  then have "q < 2 powi 53 * 2 powi e" by (simp add: q_def)
  also have "\<dots> = 2 powi (e + 53)" by (rule pow2_add_eq) simp
  finally have "2 powi (exponent q) < (2::rat) powi (e + 53)"
    using exponent_bounds(1)[OF q] by simp
  then have "exponent q < e + 53" by (simp only: pow2_less_iff)
  then have le: "max (exponent q) (- 1022) - 52 \<le> e" using assms(3) by simp
  define u where "u = max (exponent q) (- 1022) - 52"
  have u: "ulp q = 2 powi u" by (simp add: ulp_def u_def)
  have le': "u \<le> e" using le by (simp add: u_def)
  have split: "(2::rat) powi e = 2 ^ nat (e - u) * 2 powi u"
  proof -
    have "(2::rat) powi (e - u) * 2 powi u = 2 powi e" by (rule pow2_add_eq) simp
    moreover have "(2::rat) powi (e - u) = 2 ^ nat (e - u)"
      using le' by (simp add: power_int_def)
    ultimately show ?thesis by simp
  qed
  have upos: "(2::rat) powi u \<noteq> 0" by simp
  have qs: "q = of_int m * 2 ^ nat (e - u) * 2 powi u"
    by (simp only: q_def split mult.assoc)
  have "q / ulp q = q / 2 powi u" by (simp only: u)
  also have "\<dots> = of_int m * 2 ^ nat (e - u) * 2 powi u / 2 powi u" by (simp only: qs)
  also have "\<dots> = of_int (m * 2 ^ nat (e - u))" using upos by simp
  finally have "round_half_even (q / ulp q) = m * 2 ^ nat (e - u)"
    by (simp only: round_half_even_of_int)
  then have "round_pos q = of_int (m * 2 ^ nat (e - u)) * 2 powi u"
    by (simp only: round_pos_def u)
  also have "\<dots> = of_int m * (2 ^ nat (e - u) * 2 powi u)" by simp
  also have "\<dots> = q" by (simp only: split[symmetric] q_def)
  finally show ?thesis by (simp only: q_def)
qed

subsection \<open>Rounding is monotone and fixes the doubles\<close>

lemma max_double_pos: "0 < max_double"
  by (simp add: max_double_def)

lemma round_double_not_NaN [simp]: "round_double q \<noteq> NaN"
  by (simp add: round_double_def Let_def)

lemma round_double_mono:
  assumes "x \<le> y"
  shows "fle (round_double x) (round_double y)"
proof -
  consider (pp) "0 < x" | (zp) "x = 0" | (np) "x < 0" "0 \<le> y" | (nn) "x < 0" "y < 0"
    by linarith
  then show ?thesis
  proof cases
    case pp
    then have y: "0 < y" using assms by simp
    have "round_pos x \<le> round_pos y" using round_pos_mono[OF pp assms] .
    then show ?thesis using pp y by (auto simp add: round_double_def Let_def)
  next
    case zp
    then have "0 \<le> y" using assms by simp
    then have "0 \<le> round_pos y" by (rule round_pos_nonneg)
    then show ?thesis using zp \<open>0 \<le> y\<close> by (auto simp add: round_double_def Let_def)
  next
    case np
    have a: "0 \<le> round_pos (- x)" using np(1) by (intro round_pos_nonneg) simp
    have b: "0 \<le> round_pos y" using np(2) by (rule round_pos_nonneg)
    show ?thesis using np a b by (auto simp add: round_double_def Let_def)
  next
    case nn
    have "round_pos (- y) \<le> round_pos (- x)" using nn assms by (intro round_pos_mono) simp_all
    moreover have "0 \<le> round_pos (- x)" using nn(1) by (intro round_pos_nonneg) simp
    moreover have "0 \<le> round_pos (- y)" using nn(2) by (intro round_pos_nonneg) simp
    ultimately show ?thesis using nn by (auto simp add: round_double_def Let_def)
  qed
qed

lemma round_double_eqI:
  assumes "2 powi (e + 52) \<le> q" "q < 2 powi (e + 53)" "- 1074 \<le> e"
    and "\<bar>q / 2 powi e - of_int m\<bar> < 1 / 2"
    and "y = of_int m * 2 powi e" "y \<le> max_double"
  shows "round_double q = Fin y"
proof -
  have "0 < q" using assms(1) by (rule less_le_trans[rotated]) simp
  moreover have "round_pos q = y" using round_pos_eqI[OF assms(1-4)] assms(5) by simp
  ultimately show ?thesis using assms(6) by (simp add: round_double_def)
qed

lemma round_double_neg_eqI:
  assumes "2 powi (e + 52) \<le> - q" "- q < 2 powi (e + 53)" "- 1074 \<le> e"
    and "\<bar>- q / 2 powi e - of_int m\<bar> < 1 / 2"
    and "y = - (of_int m * 2 powi e)" "- y \<le> max_double"
  shows "round_double q = Fin y"
proof -
  have q: "0 < - q" using assms(1) by (rule less_le_trans[rotated]) simp
  have r: "round_pos (- q) = - y" using round_pos_eqI[OF assms(1-4)] assms(5) by simp
  have ex: "exponent (- q) = e + 52"
    using assms(1,2) by (intro exponent_unique) (simp_all add: add.commute)
  have "(0::rat) < 2 powi (e + 52)" by simp
  also have "\<dots> \<le> round_pos (- q)"
    using round_pos_lower[OF q] assms(3) by (simp add: ex)
  finally have "0 < - y" by (simp only: r)
  then show ?thesis using q r assms(6) by (simp add: round_double_def)
qed

lemma is_double_pow2:
  assumes "\<bar>m\<bar> < 2 ^ 53" "- 1074 \<le> e" "e \<le> 971"
  shows "is_double (of_int m * 2 powi e)"
proof -
  define q :: rat where "q = of_int \<bar>m\<bar> * 2 powi e"
  have bound: "q \<le> max_double"
  proof -
    have "\<bar>m\<bar> \<le> 2 ^ 53 - 1" using assms(1) by simp
    then have "(of_int \<bar>m\<bar> :: rat) \<le> of_int (2 ^ 53 - 1)" by (simp only: of_int_le_iff)
    moreover have "(2::rat) powi e \<le> 2 powi 971" using assms(3) by (simp only: pow2_le_iff)
    ultimately have "q \<le> of_int (2 ^ 53 - 1) * 2 powi 971"
      unfolding q_def by (intro mult_mono) simp_all
    then show ?thesis by (simp add: max_double_def)
  qed
  consider (z) "m = 0" | (p) "0 < m" | (n) "m < 0" by linarith
  then show ?thesis
  proof cases
    case z
    then show ?thesis by (simp add: is_double_def round_double_def)
  next
    case p
    then have "round_pos (of_int m * 2 powi e) = of_int m * 2 powi e"
      using assms by (intro round_pos_fix) simp_all
    then show ?thesis using p bound by (simp add: is_double_def round_double_def q_def)
  next
    case n
    then have "round_pos (of_int (- m) * 2 powi e) = of_int (- m) * 2 powi e"
      using assms by (intro round_pos_fix) simp_all
    moreover have "of_int m * (2::rat) powi e < 0"
      using n by (intro mult_neg_pos) simp_all
    ultimately show ?thesis using n bound
      by (simp add: is_double_def round_double_def q_def)
  qed
qed

section \<open>Order and monotonicity of the operations\<close>

lemma fle_refl: "x \<noteq> NaN \<Longrightarrow> fle x x"
  by (cases x) simp_all

lemma fle_trans: "fle x y \<Longrightarrow> fle y z \<Longrightarrow> fle x z"
  by (cases x; cases y; cases z; simp)

lemma fle_not_NaN: "fle x y \<Longrightarrow> x \<noteq> NaN \<and> y \<noteq> NaN"
  by (cases x; cases y; simp)

lemma flt_iff_not_fle: "x \<noteq> NaN \<Longrightarrow> y \<noteq> NaN \<Longrightarrow> flt x y \<longleftrightarrow> \<not> fle y x"
  by (cases x; cases y; simp add: not_le)

lemma flt_imp_fle: "flt x y \<Longrightarrow> fle x y"
  by (cases x; cases y; simp)

lemma fle_flt_trans: "fle x y \<Longrightarrow> flt y z \<Longrightarrow> flt x z"
  by (cases x; cases y; cases z; simp)

lemma flt_fle_trans: "flt x y \<Longrightarrow> fle y z \<Longrightarrow> flt x z"
  by (cases x; cases y; cases z; simp)

lemma round_double_0 [simp]: "round_double 0 = Fin 0"
  by (simp add: round_double_def)

lemma round_double_nonneg: "0 \<le> q \<Longrightarrow> fle (Fin 0) (round_double q)"
  using round_double_mono[of 0 q] by simp

lemma round_double_nonpos: "q \<le> 0 \<Longrightarrow> fle (round_double q) (Fin 0)"
  using round_double_mono[of q 0] by simp

lemma fle_NZero_left [simp]: "fle NZero x = fle (Fin 0) x"
  by (cases x) simp_all

lemma fle_NZero_right [simp]: "fle x NZero = fle x (Fin 0)"
  by (cases x) simp_all

lemma flt_NZero_left [simp]: "flt NZero x = flt (Fin 0) x"
  by (cases x) simp_all

lemma flt_NZero_right [simp]: "flt x NZero = flt x (Fin 0)"
  by (cases x) simp_all

lemma fle_NInf_left [simp]: "fle NInf x = (x \<noteq> NaN)"
  by (cases x) simp_all

lemma fle_PInf_right [simp]: "fle x PInf = (x \<noteq> NaN)"
  by (cases x) simp_all

lemma round_double_pos_cases:
  assumes "0 < q"
  shows "round_double q = PInf \<or> (\<exists>y. round_double q = Fin y \<and> 0 \<le> y)"
  using assms round_pos_nonneg[of q] by (auto simp add: round_double_def Let_def)

lemma round_double_neg_cases:
  assumes "q < 0"
  shows "round_double q = NInf \<or> round_double q = NZero
           \<or> (\<exists>y. round_double q = Fin y \<and> y < 0)"
  using assms round_pos_nonneg[of "- q"] by (auto simp add: round_double_def Let_def)

text \<open>Multiplication and division by a positive finite number are monotone.\<close>

lemma fmul_mono:
  assumes "fle x y" "0 < c"
  shows "fle (fmul x (Fin c)) (fmul y (Fin c))"
proof -
  have pos: "\<And>q. 0 < q \<Longrightarrow> fle (Fin 0) (round_double (q * c))"
    using assms(2) by (intro round_double_nonneg) simp
  have neg: "\<And>q. q < 0 \<Longrightarrow> fle (round_double (q * c)) (Fin 0)"
    using assms(2) by (intro round_double_nonpos) (simp add: mult_le_0_iff)
  have mono: "\<And>p q. p \<le> q \<Longrightarrow> fle (round_double (p * c)) (round_double (q * c))"
    using assms(2) by (intro round_double_mono) simp
  show ?thesis
    using assms pos neg mono
    by (cases x; cases y) (auto simp add: fmul_def signed_inf_def signed_zero_def fle_refl)
qed

lemma fdiv_mono:
  assumes "fle x y" "0 < c"
  shows "fle (fdiv x (Fin c)) (fdiv y (Fin c))"
proof -
  have pos: "\<And>q. 0 < q \<Longrightarrow> fle (Fin 0) (round_double (q / c))"
    using assms(2) by (intro round_double_nonneg) simp
  have neg: "\<And>q. q < 0 \<Longrightarrow> fle (round_double (q / c)) (Fin 0)"
    using assms(2) by (intro round_double_nonpos) (simp add: divide_le_0_iff)
  have mono: "\<And>p q. p \<le> q \<Longrightarrow> fle (round_double (p / c)) (round_double (q / c))"
    using assms(2) by (intro round_double_mono) (simp add: divide_right_mono)
  show ?thesis
    using assms pos neg mono
    by (cases x; cases y) (auto simp add: fdiv_def signed_inf_def signed_zero_def fle_refl)
qed

section \<open>The branches of the calculation\<close>

lemma calculateAttendance_zero:
  assumes "fle (Number total0) (Fin 0)"
  shows "calculateAttendance attended0 total0 requiredPercent0 =
           \<lparr>currentPercent = Fin 0, canBunk = Fin 0, needToAttend = Fin 0,
            message = [Lit ''No classes conducted yet.'']\<rparr>"
  using assms by (simp add: calculateAttendance_def)

lemma calculateAttendance_safe:
  assumes "\<not> fle (Number total0) (Fin 0)"
    and "fge (fmul (fdiv (Number attended0) (Number total0)) (Fin 100)) (Number requiredPercent0)"
  shows "calculateAttendance attended0 total0 requiredPercent0 =
     (let r = fdiv (Number requiredPercent0) (Fin 100);
          nMax = ffloor (fdiv (fsub (Number attended0) (fmul r (Number total0))) r);
          canBunk = (if fgt nMax (Fin 0) then nMax else Fin 0)
      in \<lparr>currentPercent = toFixed2 (fmul (fdiv (Number attended0) (Number total0)) (Fin 100)),
          canBunk = canBunk, needToAttend = Fin 0,
          message = [Lit ''You are safe. You can bunk around '', Val canBunk,
                     Lit '' classes.'']\<rparr>)"
  using assms by (simp add: calculateAttendance_def Let_def)

lemma calculateAttendance_unsafe:
  assumes "\<not> fle (Number total0) (Fin 0)"
    and "\<not> fge (fmul (fdiv (Number attended0) (Number total0)) (Fin 100)) (Number requiredPercent0)"
  shows "calculateAttendance attended0 total0 requiredPercent0 =
     (let r = fdiv (Number requiredPercent0) (Fin 100);
          xMin = fceil (fdiv (fsub (fmul r (Number total0)) (Number attended0)) (fsub (Fin 1) r));
          needToAttend = (if fgt xMin (Fin 0) then xMin else Fin 0)
      in \<lparr>currentPercent = toFixed2 (fmul (fdiv (Number attended0) (Number total0)) (Fin 100)),
          canBunk = Fin 0, needToAttend = needToAttend,
          message = [Lit ''You need to attend around '', Val needToAttend,
                     Lit '' more classes to reach '', Val (Number requiredPercent0),
                     Lit ''%.'']\<rparr>)"
  using assms by (simp add: calculateAttendance_def Let_def)

subsection \<open>Strings read as numbers\<close>

lemmas string_defs = string_to_number_def unsigned_decimal_def non_decimal_def exponent_part_def
  all_digits_def digits_value_def is_digit_def digit_value_def is_space_def signed_zero_def
  signed_inf_def

lemma Number_of_strings:
  "Number (Str ''0'') = Fin 0"
  "Number (Str '''') = Fin 0"
  "Number (Str '' -0.0e5 '') = NZero"
  "Number (Str ''-Infinity'') = NInf"
  "Number (Str ''abc'') = NaN"
  "Number (Str ''12px'') = NaN"
  "Number (Str ''1 2'') = NaN"
  "Number (Str ''.'') = NaN"
  "Number (Str ''1e'') = NaN"
  "Number (Str ''-0x10'') = NaN"
  "Number (Str ''0b102'') = NaN"
  by (simp_all add: string_defs Let_def)

lemma Number_of_numerals:
  "Number (Str ''5.'') = round_double 5"
  "Number (Str ''1.5e1'') = round_double 15"
  "Number (Str ''+.5E-1'') = round_double (1 / 20)"
  "Number (Str ''0x10'') = round_double 16"
  by (simp_all add: string_defs Let_def)

section \<open>The required-fields check\<close>

lemma new_subject_rejected:
  assumes "\<not> truthy (field body ''subjectName'') \<or> eq_null (field body ''total'')
             \<or> eq_null (field body ''attended'')"
  shows "new_subject body = Inl \<lparr>status = 400, reply = Error ''Missing required fields''\<rparr>"
  using assms by (auto simp add: new_subject_def Let_def)

lemma new_subject_accepted:
  assumes "truthy (field body ''subjectName'')" "\<not> eq_null (field body ''total'')"
    "\<not> eq_null (field body ''attended'')"
  shows "new_subject body =
           Inr \<lparr>subjectName = field body ''subjectName'', total = field body ''total'',
                attended = field body ''attended'',
                requiredPercent = (if truthy (field body ''requiredPercent'')
                                   then field body ''requiredPercent''
                                   else Prim (Num (Fin 75)))\<rparr>"
  using assms by (simp add: new_subject_def Let_def)

section \<open>The range of the percentage\<close>

lemma is_double_int:
  assumes "\<bar>m\<bar> < 2 ^ 53"
  shows "is_double (of_int m)"
  using is_double_pow2[OF assms, of 0] by simp

lemma round_double_int:
  assumes "\<bar>m\<bar> < 2 ^ 53"
  shows "round_double (of_int m) = Fin (of_int m)"
  using is_double_int[OF assms] by (simp add: is_double_def)

lemma round_double_1 [simp]: "round_double 1 = Fin 1"
  using round_double_int[of 1] by simp

lemma round_double_100 [simp]: "round_double 100 = Fin 100"
  using round_double_int[of 100] by simp

lemma fdiv_unit_range:
  assumes "fle (Fin 0) a" "fle a t" "flt (Fin 0) t" "a \<noteq> PInf"
  shows "fle (Fin 0) (fdiv a t) \<and> fle (fdiv a t) (Fin 1)"
proof (cases "is_zero a \<or> t = PInf")
  case True
  then show ?thesis using assms
    by (cases a; cases t) (auto simp add: fdiv_def signed_zero_def signed_inf_def)
next
  case False
  then obtain a' t' where a: "a = Fin a'" and t: "t = Fin t'"
    using assms by (cases a; cases t) auto
  have pos: "0 < a'" "0 < t'" "a' \<le> t'" using assms False by (simp_all add: a t)
  have "0 \<le> a' / t'" "a' / t' \<le> 1" using pos by simp_all
  then have "fle (round_double 0) (round_double (a' / t'))"
    "fle (round_double (a' / t')) (round_double 1)"
    by (simp_all only: round_double_mono)
  then show ?thesis using pos by (simp add: a t fdiv_def)
qed

lemma percent_range:
  assumes "fle (Fin 0) a" "fle a t" "flt (Fin 0) t" "a \<noteq> PInf"
  shows "fle (Fin 0) (fmul (fdiv a t) (Fin 100)) \<and> fle (fmul (fdiv a t) (Fin 100)) (Fin 100)"
proof -
  from fdiv_unit_range[OF assms]
  have 1: "fle (Fin 0) (fdiv a t)" and 2: "fle (fdiv a t) (Fin 1)" by simp_all
  have "fle (fmul (Fin 0) (Fin 100)) (fmul (fdiv a t) (Fin 100))"
    using 1 by (rule fmul_mono) simp
  moreover have "fle (fmul (fdiv a t) (Fin 100)) (fmul (Fin 1) (Fin 100))"
    using 2 by (rule fmul_mono) simp
  ultimately show ?thesis by (simp add: fmul_def signed_zero_def)
qed

lemma toFixed2_range:
  assumes "fle (Fin 0) x" "fle x (Fin 100)"
  shows "fle (Fin 0) (toFixed2 x) \<and> fle (toFixed2 x) (Fin 100)"
proof (cases x)
  case (Fin q)
  then have q: "0 \<le> q" "q \<le> 100" using assms by simp_all
  define n where "n = \<lfloor>\<bar>q\<bar> * 100 + 1 / 2\<rfloor>"
  have "0 \<le> n" using q by (simp add: n_def)
  moreover have "n \<le> 10000" using q by (simp add: n_def floor_le_iff)
  ultimately have "(0::rat) \<le> of_int n / 100" "of_int n / 100 \<le> (100::rat)" by simp_all
  then have "fle (round_double 0) (round_double (of_int n / 100))"
    "fle (round_double (of_int n / 100)) (round_double 100)"
    by (simp_all only: round_double_mono)
  moreover have "toFixed2 x = round_double (of_int n / 100)"
    using q by (simp add: Fin toFixed2_def n_def Let_def)
  ultimately show ?thesis by simp
qed (use assms in \<open>simp_all add: toFixed2_def\<close>)

lemma toFixed2_two_decimals:
  assumes "\<bar>q\<bar> < 10 ^ 21"
  shows "\<exists>k::int. \<bar>of_int k / 100 - q\<bar> \<le> 1 / 200 \<and>
           toFixed2 (Fin q) = (if k = 0 \<and> q < 0 then NZero else round_double (of_int k / 100))"
proof -
  define n where "n = \<lfloor>\<bar>q\<bar> * 100 + 1 / 2\<rfloor>"
  have lo: "of_int n \<le> \<bar>q\<bar> * 100 + 1 / 2" and hi: "\<bar>q\<bar> * 100 + 1 / 2 < of_int n + 1"
    unfolding n_def by linarith+
  have n0: "0 \<le> n" by (simp add: n_def)
  show ?thesis
  proof (cases "q < 0")
    case True
    have "\<bar>of_int (- n) / 100 - q\<bar> \<le> 1 / 200"
    proof -
      have "\<bar>q\<bar> = - q" using True by simp
      with lo hi have "of_int n \<le> - q * 100 + 1 / 2" "- q * 100 + 1 / 2 < of_int n + 1"
        by simp_all
      then have "of_int (- n) / 100 - q \<le> 1 / 200" "- (of_int (- n) / 100 - q) \<le> 1 / 200"
        by simp_all
      then show ?thesis by (simp only: abs_le_iff)
    qed
    moreover have "toFixed2 (Fin q) = (if - n = 0 \<and> q < 0 then NZero else round_double (of_int (- n) / 100))"
      using assms True by (simp add: toFixed2_def n_def Let_def)
    ultimately show ?thesis by blast
  next
    case False
    have "\<bar>of_int n / 100 - q\<bar> \<le> 1 / 200"
    proof -
      have "\<bar>q\<bar> = q" using False by simp
      with lo hi have "of_int n \<le> q * 100 + 1 / 2" "q * 100 + 1 / 2 < of_int n + 1"
        by simp_all
      then have "of_int n / 100 - q \<le> 1 / 200" "- (of_int n / 100 - q) \<le> 1 / 200"
        by simp_all
      then show ?thesis by (simp only: abs_le_iff)
    qed
    moreover have "toFixed2 (Fin q) = (if n = 0 \<and> q < 0 then NZero else round_double (of_int n / 100))"
      using assms False by (simp add: toFixed2_def n_def Let_def)
    ultimately show ?thesis by blast
  qed
qed

subsection \<open>Counts\<close>

lemma floor_clamp_count: "is_count (if fgt (ffloor x) (Fin 0) then ffloor x else Fin 0)"
  by (cases x) (simp_all add: ffloor_def fgt_def)

lemma ceil_clamp_count: "is_count (if fgt (fceil x) (Fin 0) then fceil x else Fin 0)"
  by (cases x) (simp_all add: fceil_def fgt_def)

lemma calculateAttendance_counts:
  "is_count (canBunk (calculateAttendance a0 t0 rp0))"
  "is_count (needToAttend (calculateAttendance a0 t0 rp0))"
  "canBunk (calculateAttendance a0 t0 rp0) = Fin 0
     \<or> needToAttend (calculateAttendance a0 t0 rp0) = Fin 0"
  using floor_clamp_count ceil_clamp_count
  by (simp_all add: calculateAttendance_def Let_def)

lemma calculateAttendance_currentPercent:
  assumes "\<not> fle (Number t0) (Fin 0)"
  shows "currentPercent (calculateAttendance a0 t0 rp0) =
           toFixed2 (fmul (fdiv (Number a0) (Number t0)) (Fin 100))"
  using assms by (simp add: calculateAttendance_def Let_def)

subsection \<open>Two classes out of three, in double arithmetic\<close>

lemma ev_2_3: "fdiv (Fin 2) (Fin 3) = Fin (6004799503160661 / 9007199254740992)"
proof -
  have "round_double (2 / 3) = Fin (6004799503160661 / 9007199254740992)"
    by (rule round_double_eqI[where e = "- 53" and m = 6004799503160661]) (simp_all add: max_double_def)
  then show ?thesis by (simp add: fdiv_def)
qed

lemma ev_2_3_pct: "fmul (Fin (6004799503160661 / 9007199254740992)) (Fin 100) = Fin (2345624805922133 / 35184372088832)"
proof -
  have "round_double (150119987579016525 / 2251799813685248) = Fin (2345624805922133 / 35184372088832)"
    by (rule round_double_eqI[where e = "- 46" and m = 4691249611844266]) (simp_all add: max_double_def)
  then show ?thesis by (simp add: fmul_def)
qed

lemma ev_2_3_fixed: "toFixed2 (Fin (2345624805922133 / 35184372088832)) = Fin (4691484174324859 / 70368744177664)"
proof -
  have "round_double (6667 / 100) = Fin (4691484174324859 / 70368744177664)"
    by (rule round_double_eqI[where e = "- 46" and m = 4691484174324859]) (simp_all add: max_double_def)
  then show ?thesis by (simp add: toFixed2_def Let_def)
qed

section \<open>Targets that are binary fractions\<close>

lemma round_double_dyadic:
  assumes "\<bar>m\<bar> < 2 ^ 53" "k \<le> 1074"
  shows "round_double (of_int m / 2 ^ k) = Fin (of_int m / 2 ^ k)"
proof -
  have "is_double (of_int m * 2 powi (- int k))"
    using assms by (intro is_double_pow2) simp_all
  moreover have "(2::rat) powi (- int k) = 1 / 2 ^ k"
    by (simp add: power_int_minus_divide)
  ultimately show ?thesis by (simp add: is_double_def)
qed

lemma round_double_nonneg_not_NZero: "0 \<le> q \<Longrightarrow> round_double q \<noteq> NZero"
  by (simp add: round_double_def Let_def)

lemma round_double_between:
  assumes "0 \<le> x" "l \<le> x" "x \<le> u" "round_double l = Fin l" "round_double u = Fin u"
  shows "\<exists>q. round_double x = Fin q \<and> l \<le> q \<and> q \<le> u"
proof -
  have 1: "fle (Fin l) (round_double x)" using round_double_mono[OF assms(2)] assms(4) by simp
  have 2: "fle (round_double x) (Fin u)" using round_double_mono[OF assms(3)] assms(5) by simp
  show ?thesis
    using 1 2 round_double_nonneg_not_NZero[OF assms(1)]
    by (cases "round_double x") simp_all
qed

lemma floor_round_exact:
  fixes j d :: int
  assumes "0 < d" "d \<le> 2 ^ 10" "0 \<le> j" "j < d * 2 ^ 42"
  shows "ffloor (round_double (of_int j / of_int d)) = Fin (of_int (j div d))"
proof -
  define k where "k = j div d"
  define x :: rat where "x = of_int j / of_int d"
  have dpos: "(0::rat) < of_int d" using assms(1) by simp
  have k0: "0 \<le> k" using assms by (simp add: k_def pos_imp_zdiv_nonneg_iff)
  have fl: "\<lfloor>x\<rfloor> = k" by (simp add: x_def k_def floor_divide_of_int_eq)
  have "(of_int j :: rat) < of_int (d * 2 ^ 42)" using assms(4) by (simp only: of_int_less_iff)
  then have "x < of_int (2 ^ 42)" using dpos by (simp add: x_def field_simps)
  then have "\<lfloor>x\<rfloor> < 2 ^ 42" by (simp only: floor_less_iff)
  then have k42: "k < 2 ^ 42" using fl by simp
  have lo: "of_int k \<le> x" using of_int_floor_le[of x] fl by simp
  have "j mod d < d" using assms(1) by simp
  moreover have "j = d * k + j mod d" by (simp add: k_def)
  ultimately have "j < d * (k + 1)" by (simp add: algebra_simps)
  then have "j + 1 \<le> d * (k + 1)" by simp
  then have "(of_int (j + 1) :: rat) \<le> of_int (d * (k + 1))" by (simp only: of_int_le_iff)
  then have "of_int j + 1 \<le> of_int d * (of_int k + (1::rat))" by simp
  then have "x + 1 / of_int d \<le> of_int k + 1"
    using dpos by (simp add: x_def field_simps)
  moreover have "(1::rat) / 2 ^ 10 \<le> 1 / of_int d"
  proof -
    have "(of_int d :: rat) \<le> of_int (2 ^ 10)" using assms(2) by (simp only: of_int_le_iff)
    then show ?thesis using dpos by (simp add: field_simps)
  qed
  ultimately have hi: "x \<le> of_int ((k + 1) * 2 ^ 10 - 1) / 2 ^ 10" by (simp add: field_simps)
  have x0: "0 \<le> x" using assms by (simp add: x_def)
  have rl: "round_double (of_int k) = Fin (of_int k)"
    using k0 k42 by (intro round_double_int) simp
  have ru: "round_double (of_int ((k + 1) * 2 ^ 10 - 1) / 2 ^ 10)
              = Fin (of_int ((k + 1) * 2 ^ 10 - 1) / 2 ^ 10)"
    using k0 k42 by (intro round_double_dyadic) simp_all
  from round_double_between[OF x0 lo hi rl ru]
  obtain q where q: "round_double x = Fin q" "of_int k \<le> q"
    "q \<le> of_int ((k + 1) * 2 ^ 10 - 1) / 2 ^ 10" by blast
  have "q < of_int k + 1" using q(3) by (simp add: field_simps)
  then have "\<lfloor>q\<rfloor> = k" using q(2) by (simp add: floor_unique)
  then show ?thesis using q(1) by (simp add: ffloor_def x_def k_def)
qed

lemma ceil_round_exact:
  fixes j d :: int
  assumes "0 < d" "d \<le> 2 ^ 10" "0 < j" "j \<le> d * 2 ^ 42"
  shows "fceil (round_double (of_int j / of_int d)) = Fin (of_int (- (- j div d)))"
proof -
  define k where "k = - (- j div d)"
  define x :: rat where "x = of_int j / of_int d"
  have "- x = of_int (- j) / of_int d" by (simp add: x_def)
  then have "\<lfloor>- x\<rfloor> = - j div d" by (simp only: floor_divide_of_int_eq)
  then have cl: "\<lceil>x\<rceil> = k" by (simp add: k_def ceiling_def)
  have dpos: "(0::rat) < of_int d" using assms(1) by simp
  have x0: "0 < x" using assms by (simp add: x_def)
  then have "0 < \<lceil>x\<rceil>" by simp
  then have k1: "1 \<le> k" using cl by simp
  have hi: "x \<le> of_int k" using ceiling_correct[of x] cl by simp
  have "(of_int j :: rat) \<le> of_int (d * 2 ^ 42)" using assms(4) by (simp only: of_int_le_iff)
  then have "x \<le> of_int (2 ^ 42)" using dpos by (simp add: x_def field_simps)
  then have "\<lceil>x\<rceil> \<le> 2 ^ 42" by (simp only: ceiling_le_iff)
  then have k42: "k \<le> 2 ^ 42" using cl by simp
  have "of_int k - 1 < x" using ceiling_correct[of x] cl by simp
  then have "(of_int ((k - 1) * d) :: rat) < of_int j" using dpos by (simp add: x_def field_simps)
  then have "(k - 1) * d < j" by (simp only: of_int_less_iff)
  then have "(k - 1) * d + 1 \<le> j" by simp
  then have "(of_int ((k - 1) * d + 1) :: rat) \<le> of_int j" by (simp only: of_int_le_iff)
  then have "(of_int ((k - 1) * d + 1) :: rat) / of_int d \<le> of_int j / of_int d"
    using dpos by (intro divide_right_mono) simp_all
  moreover have "(of_int ((k - 1) * d + 1) :: rat) / of_int d = of_int k - 1 + 1 / of_int d"
    using dpos by (simp add: field_simps)
  ultimately have "of_int k - 1 + 1 / of_int d \<le> x" by (simp only: x_def)
  have "(1::rat) / 2 ^ 10 \<le> 1 / of_int d"
  proof -
    have "(of_int d :: rat) \<le> of_int (2 ^ 10)" using assms(2) by (simp only: of_int_le_iff)
    then show ?thesis using dpos by (simp add: field_simps)
  qed
  then have lo: "of_int ((k - 1) * 2 ^ 10 + 1) / 2 ^ 10 \<le> x"
    using \<open>of_int k - 1 + 1 / of_int d \<le> x\<close> by (simp add: field_simps)
  have rl: "round_double (of_int ((k - 1) * 2 ^ 10 + 1) / 2 ^ 10)
              = Fin (of_int ((k - 1) * 2 ^ 10 + 1) / 2 ^ 10)"
    using k1 k42 by (intro round_double_dyadic) simp_all
  have ru: "round_double (of_int k) = Fin (of_int k)"
    using k1 k42 by (intro round_double_int) simp
  from round_double_between[OF less_imp_le[OF x0] lo hi rl ru]
  obtain q where q: "round_double x = Fin q" "of_int ((k - 1) * 2 ^ 10 + 1) / 2 ^ 10 \<le> q"
    "q \<le> of_int k" by blast
  have gt: "of_int k - 1 < q" using q(2) by (simp add: field_simps)
  have "(1::rat) \<le> of_int k" using k1 by simp
  then have q0: "0 < q" using gt by linarith
  have "\<lceil>q\<rceil> = k" using gt q(3) by (simp add: ceiling_unique)
  then show ?thesis using q(1) q0 by (simp add: fceil_def x_def k_def)
qed

text \<open>
  Counts below \<open>2 ^ 32\<close> and a target fraction \<open>c / 2 ^ s\<close> with at most ten fractional
  bits: every intermediate result but the last quotient is a double, so no rounding
  error enters before the floor or the ceiling is taken.
\<close>

lemma pow2_le_1024: "s \<le> 10 \<Longrightarrow> (2::int) ^ s \<le> 1024"
  using power_increasing[of s 10 "2::int"] by simp

lemma target_fraction_double:
  fixes c :: int
  assumes "0 < c" "c \<le> 2 ^ s" "s \<le> 10"
  shows "round_double (of_int c / 2 ^ s) = Fin (of_int c / 2 ^ s)"
proof -
  have "c \<le> 1024" using assms(2) pow2_le_1024[OF assms(3)] by linarith
  then show ?thesis using assms by (intro round_double_dyadic) simp_all
qed

lemma frac_exact:
  fixes c :: int
  assumes "0 < c" "c \<le> 2 ^ s" "s \<le> 10"
  shows "fdiv (Fin (100 * (of_int c / 2 ^ s))) (Fin 100) = Fin (of_int c / 2 ^ s)"
  using target_fraction_double[OF assms] assms(1) by (simp add: fdiv_def)

lemma percent_exact:
  fixes c :: int
  assumes "0 < c" "c \<le> 2 ^ s" "s \<le> 10"
  shows "fmul (Fin (of_int c / 2 ^ s)) (Fin 100) = Fin (100 * (of_int c / 2 ^ s))"
proof -
  have "c \<le> 1024" using assms(2) pow2_le_1024[OF assms(3)] by linarith
  then have "round_double (of_int (c * 100) / 2 ^ s) = Fin (of_int (c * 100) / 2 ^ s)"
    using assms by (intro round_double_dyadic) simp_all
  then show ?thesis using assms(1) by (simp add: fmul_def)
qed

lemma scaled_bounds:
  fixes a c t :: int
  assumes "0 \<le> a" "a \<le> t" "t < 2 ^ 32" "0 < c" "c \<le> 2 ^ s" "s \<le> 10"
  shows "0 \<le> a * 2 ^ s" "a * 2 ^ s < 2 ^ 42" "0 \<le> c * t" "c * t < 2 ^ 42"
proof -
  have c: "c \<le> 1024" using assms(5) pow2_le_1024[OF assms(6)] by linarith
  have p: "(2::int) ^ s \<le> 1024" by (rule pow2_le_1024[OF assms(6)])
  have t0: "0 \<le> t" using assms by simp
  show "0 \<le> a * 2 ^ s" using assms(1) by simp
  have "a * 2 ^ s \<le> a * 1024" using p assms(1) by (intro mult_left_mono) simp_all
  then show "a * 2 ^ s < 2 ^ 42" using assms by simp
  show "0 \<le> c * t" using assms(4) t0 by simp
  have "c * t \<le> 1024 * t" using c t0 by (intro mult_right_mono) simp_all
  then show "c * t < 2 ^ 42" using assms by simp
qed

lemma product_exact:
  fixes c t :: int
  assumes "0 < c" "c \<le> 2 ^ s" "s \<le> 10" "0 < t" "t < 2 ^ 32"
  shows "fmul (Fin (of_int c / 2 ^ s)) (Fin (of_int t)) = Fin (of_int c / 2 ^ s * of_int t)"
proof -
  have "0 \<le> c * t" "c * t < 2 ^ 42"
    using scaled_bounds(3,4)[of 0 t c s] assms by simp_all
  then have "\<bar>c * t\<bar> < 2 ^ 53" by simp
  then have "round_double (of_int (c * t) / 2 ^ s) = Fin (of_int (c * t) / 2 ^ s)"
    using assms by (intro round_double_dyadic) simp_all
  then show ?thesis using assms(1,4) by (simp add: fmul_def)
qed

lemma diff_exact:
  fixes a c t :: int
  assumes "0 \<le> a" "a \<le> t" "0 < t" "t < 2 ^ 32" "0 < c" "c \<le> 2 ^ s" "s \<le> 10"
  shows "fsub (Fin (of_int a)) (Fin (of_int c / 2 ^ s * of_int t))
           = Fin (of_int a - of_int c / 2 ^ s * of_int t)"
proof -
  note b = scaled_bounds[OF assms(1,2,4,5,6,7)]
  have eq: "(of_int a :: rat) - of_int c / 2 ^ s * of_int t = of_int (a * 2 ^ s - c * t) / 2 ^ s"
    by (simp add: field_simps)
  have "\<bar>a * 2 ^ s - c * t\<bar> < 2 ^ 53" using b by simp
  then have "round_double (of_int (a * 2 ^ s - c * t) / 2 ^ s)
               = Fin (of_int (a * 2 ^ s - c * t) / 2 ^ s)"
    using assms by (intro round_double_dyadic) simp_all
  then have r: "round_double (of_int a - of_int c / 2 ^ s * of_int t)
               = Fin (of_int a - of_int c / 2 ^ s * of_int t)"
    by (simp only: eq)
  have nz: "of_int c / 2 ^ s * (of_int t :: rat) \<noteq> 0" using assms by simp
  show ?thesis
  proof (cases "(of_int a :: rat) - of_int c / 2 ^ s * of_int t = 0")
    case True
    then have "(of_int a :: rat) \<noteq> 0" using nz by simp
    then show ?thesis using True nz by (simp add: fsub_def fadd_def fneg_def signed_zero_def)
  next
    case False
    then show ?thesis using r nz by (simp add: fsub_def fadd_def fneg_def)
  qed
qed

lemma diff_exact':
  fixes a c t :: int
  assumes "0 \<le> a" "a \<le> t" "0 < t" "t < 2 ^ 32" "0 < c" "c \<le> 2 ^ s" "s \<le> 10"
  shows "fsub (Fin (of_int c / 2 ^ s * of_int t)) (Fin (of_int a))
           = Fin (of_int c / 2 ^ s * of_int t - of_int a)"
proof -
  note b = scaled_bounds[OF assms(1,2,4,5,6,7)]
  have eq: "of_int c / 2 ^ s * of_int t - (of_int a :: rat) = of_int (c * t - a * 2 ^ s) / 2 ^ s"
    by (simp add: field_simps)
  have "\<bar>c * t - a * 2 ^ s\<bar> < 2 ^ 53" using b by simp
  then have "round_double (of_int (c * t - a * 2 ^ s) / 2 ^ s)
               = Fin (of_int (c * t - a * 2 ^ s) / 2 ^ s)"
    using assms by (intro round_double_dyadic) simp_all
  then have r: "round_double (of_int c / 2 ^ s * of_int t - of_int a)
               = Fin (of_int c / 2 ^ s * of_int t - of_int a)"
    by (simp only: eq)
  have nz: "of_int c / 2 ^ s * (of_int t :: rat) \<noteq> 0" using assms by simp
  show ?thesis
    using r nz by (cases "a = 0") (auto simp add: fsub_def fadd_def fneg_def signed_zero_def)
qed

lemma one_minus_exact:
  fixes c :: int
  assumes "0 < c" "c \<le> 2 ^ s" "s \<le> 10"
  shows "fsub (Fin 1) (Fin (of_int c / 2 ^ s)) = Fin (1 - of_int c / 2 ^ s)"
proof -
  have p: "(2::int) ^ s \<le> 1024" by (rule pow2_le_1024[OF assms(3)])
  have eq: "1 - (of_int c :: rat) / 2 ^ s = of_int (2 ^ s - c) / 2 ^ s"
    by (simp add: field_simps)
  have "\<bar>2 ^ s - c\<bar> < 2 ^ 53" using assms p by simp
  then have "round_double (of_int (2 ^ s - c) / 2 ^ s) = Fin (of_int (2 ^ s - c) / 2 ^ s)"
    using assms by (intro round_double_dyadic) simp_all
  then have r: "round_double (1 - of_int c / 2 ^ s) = Fin (1 - of_int c / 2 ^ s)"
    by (simp only: eq)
  have nz: "(of_int c :: rat) / 2 ^ s \<noteq> 0" using assms by simp
  show ?thesis using r nz by (auto simp add: fsub_def fadd_def fneg_def signed_zero_def)
qed

lemma dyadic_shift:
  fixes c :: int
  assumes "s \<le> n"
  shows "(of_int c :: rat) / 2 ^ s = of_int (c * 2 ^ (n - s)) / 2 ^ n"
proof -
  have "(2::rat) ^ n = 2 ^ s * 2 ^ (n - s)" using assms by (simp flip: power_add)
  then show ?thesis by simp
qed

lemma branch_exact:
  fixes a c t :: int
  assumes "0 \<le> a" "a \<le> t" "0 < t" "t < 2 ^ 32" "0 < c" "c \<le> 2 ^ s" "s \<le> 10"
  shows "fge (fmul (fdiv (Fin (of_int a)) (Fin (of_int t))) (Fin 100))
             (Fin (100 * (of_int c / 2 ^ s)))
         \<longleftrightarrow> of_int c / 2 ^ s \<le> (of_int a :: rat) / of_int t"
proof
  define r :: rat where "r = of_int c / 2 ^ s"
  have rpos: "0 < r" using assms by (simp add: r_def)
  have rr: "round_double r = Fin r"
    unfolding r_def by (rule target_fraction_double[OF assms(5,6,7)])
  assume h: "of_int c / 2 ^ s \<le> (of_int a :: rat) / of_int t"
  then have "0 < (of_int a :: rat) / of_int t" using rpos by (simp add: r_def)
  then have apos: "(of_int a :: rat) \<noteq> 0" by auto
  have "fle (round_double r) (round_double (of_int a / of_int t))"
    using h by (intro round_double_mono) (simp add: r_def)
  then have "fle (Fin r) (fdiv (Fin (of_int a)) (Fin (of_int t)))"
    using apos assms(3) by (simp add: rr fdiv_def)
  then have "fle (fmul (Fin r) (Fin 100)) (fmul (fdiv (Fin (of_int a)) (Fin (of_int t))) (Fin 100))"
    by (rule fmul_mono) simp
  then show "fge (fmul (fdiv (Fin (of_int a)) (Fin (of_int t))) (Fin 100))
             (Fin (100 * (of_int c / 2 ^ s)))"
    using percent_exact[OF assms(5,6,7)] by (simp add: fge_def r_def)
next
  define r :: rat where "r = of_int c / 2 ^ s"
  define y :: rat where "y = of_int (c * 2 ^ (50 - s) - 1) / 2 ^ 50"
  define z :: rat where "z = of_int (100 * (c * 2 ^ (45 - s)) - 1) / 2 ^ 45"
  define x where "x = fdiv (Fin (of_int a)) (Fin (of_int t))"
  have c1024: "c \<le> 1024" using assms(6) pow2_le_1024[OF assms(7)] by linarith
  have r50: "r = of_int (c * 2 ^ (50 - s)) / 2 ^ 50"
    unfolding r_def using assms(7) by (intro dyadic_shift) simp
  have r45: "r = of_int (c * 2 ^ (45 - s)) / 2 ^ 45"
    unfolding r_def using assms(7) by (intro dyadic_shift) simp
  have y: "y = r - 1 / 2 ^ 50" by (simp add: y_def r50 diff_divide_distrib)
  have z: "z = 100 * r - 1 / 2 ^ 45" by (simp add: z_def r45 diff_divide_distrib)
  have m50: "0 < c * 2 ^ (50 - s)" "c * 2 ^ (50 - s) \<le> 2 ^ 50"
  proof -
    show "0 < c * 2 ^ (50 - s)" using assms(5) by simp
    have "c * 2 ^ (50 - s) \<le> 2 ^ s * 2 ^ (50 - s)"
      using assms(6) by (intro mult_right_mono) simp_all
    also have "\<dots> = 2 ^ 50" using assms(7) by (simp flip: power_add)
    finally show "c * 2 ^ (50 - s) \<le> 2 ^ 50" .
  qed
  have m45: "0 < c * 2 ^ (45 - s)" "c * 2 ^ (45 - s) \<le> 2 ^ 45"
  proof -
    show "0 < c * 2 ^ (45 - s)" using assms(5) by simp
    have "c * 2 ^ (45 - s) \<le> 2 ^ s * 2 ^ (45 - s)"
      using assms(6) by (intro mult_right_mono) simp_all
    also have "\<dots> = 2 ^ 45" using assms(7) by (simp flip: power_add)
    finally show "c * 2 ^ (45 - s) \<le> 2 ^ 45" .
  qed
  have ry: "round_double y = Fin y"
    unfolding y_def using m50 by (intro round_double_dyadic) simp_all
  have rz: "round_double z = Fin z"
    unfolding z_def using m45 by (intro round_double_dyadic) simp_all
  have tpos: "(0::rat) < of_int t" using assms(3) by simp
  have rge: "1 / 1024 \<le> r"
  proof -
    have "(1::rat) \<le> of_int c" using assms(5) by simp
    moreover have "(2::rat) ^ s \<le> 1024" using power_increasing[of s 10 "2::rat"] assms(7) by simp
    ultimately have "(1::rat) / 1024 \<le> of_int c / 2 ^ s" by (intro frac_le) simp_all
    then show ?thesis by (simp add: r_def)
  qed
  have ypos: "0 < y" using rge by (simp add: y)
  assume safe: "fge (fmul (fdiv (Fin (of_int a)) (Fin (of_int t))) (Fin 100))
             (Fin (100 * (of_int c / 2 ^ s)))"
  show "of_int c / 2 ^ s \<le> (of_int a :: rat) / of_int t"
  proof (rule ccontr)
    assume "\<not> of_int c / 2 ^ s \<le> (of_int a :: rat) / of_int t"
    then have lt: "(of_int a :: rat) / of_int t < of_int c / 2 ^ s" by simp
    then have "(of_int a :: rat) * 2 ^ s < of_int c * of_int t"
      using tpos by (simp add: field_simps)
    then have "(of_int (a * 2 ^ s) :: rat) < of_int (c * t)" by simp
    then have "a * 2 ^ s < c * t" by (simp only: of_int_less_iff)
    then have "a * 2 ^ s + 1 \<le> c * t" by simp
    then have "(of_int (a * 2 ^ s + 1) :: rat) \<le> of_int (c * t)" by (simp only: of_int_le_iff)
    then have "(of_int (a * 2 ^ s + 1) :: rat) / (2 ^ s * of_int t) \<le> of_int (c * t) / (2 ^ s * of_int t)"
      using tpos by (intro divide_right_mono) simp_all
    moreover have "(of_int (c * t) :: rat) / (2 ^ s * of_int t) = r"
      using tpos by (simp add: r_def)
    moreover have "(of_int (a * 2 ^ s + 1) :: rat) / (2 ^ s * of_int t)
                     = of_int a / of_int t + 1 / (2 ^ s * of_int t)"
      using tpos by (simp add: field_simps)
    ultimately have gap: "of_int a / of_int t + 1 / (2 ^ s * of_int t) \<le> r" by simp
    have "(2::rat) ^ s * of_int t \<le> 1024 * 2 ^ 32"
    proof -
      have "(2::rat) ^ s \<le> 1024" using power_increasing[of s 10 "2::rat"] assms(7) by simp
      moreover have "(of_int t :: rat) \<le> of_int (2 ^ 32)"
        using assms(4) by (simp only: of_int_le_iff)
      ultimately show ?thesis using tpos by (intro mult_mono) simp_all
    qed
    then have "(1::rat) / (1024 * 2 ^ 32) \<le> 1 / (2 ^ s * of_int t)"
      using tpos by (intro divide_left_mono) simp_all
    then have "(1::rat) / 2 ^ 50 \<le> 1 / (2 ^ s * of_int t)" by simp
    then have ay: "of_int a / of_int t \<le> y" using gap by (simp add: y)
    have xy: "fle x (Fin y)"
    proof (cases "a = 0")
      case True
      then show ?thesis using ypos assms(3) by (simp add: x_def fdiv_def signed_zero_def)
    next
      case False
      have "fle (round_double (of_int a / of_int t)) (round_double y)"
        using ay by (rule round_double_mono)
      then show ?thesis using False assms(3) by (simp add: x_def fdiv_def ry)
    qed
    have "fle (fmul x (Fin 100)) (fmul (Fin y) (Fin 100))"
      using xy by (rule fmul_mono) simp
    moreover have "fmul (Fin y) (Fin 100) = round_double (100 * y)"
      using ypos by (simp add: fmul_def mult.commute)
    ultimately have A: "fle (fmul x (Fin 100)) (round_double (100 * y))" by simp
    have "fle (round_double (100 * y)) (round_double z)"
      by (intro round_double_mono) (simp add: y z)
    then have B: "fle (round_double (100 * y)) (Fin z)" by (simp only: rz)
    have "fle (fmul x (Fin 100)) (Fin z)" by (rule fle_trans[OF A B])
    moreover have "fle (Fin (100 * r)) (fmul x (Fin 100))"
      using safe by (simp add: fge_def x_def r_def)
    ultimately have "fle (Fin (100 * r)) (Fin z)" using fle_trans by blast
    then show False by (simp add: z)
  qed
qed

lemma fdiv_Fin_Fin: "x \<noteq> 0 \<Longrightarrow> y \<noteq> 0 \<Longrightarrow> fdiv (Fin x) (Fin y) = round_double (x / y)"
  by (simp add: fdiv_def)

lemma fdiv_zero_pos: "0 < y \<Longrightarrow> fdiv (Fin 0) (Fin y) = Fin 0"
  by (simp add: fdiv_def signed_zero_def)

lemma quotient_safe_exact:
  fixes a c t :: int
  assumes "0 \<le> a" "a \<le> t" "0 < t" "t < 2 ^ 32" "0 < c" "c \<le> 2 ^ s" "s \<le> 10"
    and "of_int c / 2 ^ s \<le> (of_int a :: rat) / of_int t"
  shows "ffloor (fdiv (Fin (of_int a - of_int c / 2 ^ s * of_int t)) (Fin (of_int c / 2 ^ s)))
           = Fin (of_int \<lfloor>((of_int a :: rat) - of_int c / 2 ^ s * of_int t) / (of_int c / 2 ^ s)\<rfloor>)"
    and "0 \<le> \<lfloor>((of_int a :: rat) - of_int c / 2 ^ s * of_int t) / (of_int c / 2 ^ s)\<rfloor>"
proof -
  define j where "j = a * 2 ^ s - c * t"
  note b = scaled_bounds[OF assms(1,2,4,5,6,7)]
  have cpos: "(0::rat) < of_int c" using assms(5) by simp
  have tpos: "(0::rat) < of_int t" using assms(3) by simp
  have q: "((of_int a :: rat) - of_int c / 2 ^ s * of_int t) / (of_int c / 2 ^ s)
             = of_int j / of_int c"
    using cpos by (simp add: j_def field_simps)
  have "(of_int c :: rat) * of_int t \<le> of_int a * 2 ^ s"
    using assms(8) tpos by (simp add: field_simps)
  then have "(of_int (c * t) :: rat) \<le> of_int (a * 2 ^ s)" by simp
  then have "c * t \<le> a * 2 ^ s" by (simp only: of_int_le_iff)
  then have j0: "0 \<le> j" by (simp add: j_def)
  have "j \<le> a * 2 ^ s" using b by (simp add: j_def)
  also have "\<dots> < 1 * 2 ^ 42" using b by simp
  also have "\<dots> \<le> c * 2 ^ 42" using assms(5) by (intro mult_right_mono) simp_all
  finally have j42: "j < c * 2 ^ 42" .
  have c1024: "c \<le> 2 ^ 10" using assms(6) pow2_le_1024[OF assms(7)] by simp
  have fl: "ffloor (round_double (of_int j / of_int c)) = Fin (of_int (j div c))"
    by (rule floor_round_exact[OF assms(5) c1024 j0 j42])
  have fe: "\<lfloor>(of_int j :: rat) / of_int c\<rfloor> = j div c" by (rule floor_divide_of_int_eq)
  show "0 \<le> \<lfloor>((of_int a :: rat) - of_int c / 2 ^ s * of_int t) / (of_int c / 2 ^ s)\<rfloor>"
    using j0 assms(5) by (simp only: q fe) (simp add: pos_imp_zdiv_nonneg_iff)
  have num: "(of_int a :: rat) - of_int c / 2 ^ s * of_int t = of_int j / 2 ^ s"
    by (simp add: j_def field_simps)
  show "ffloor (fdiv (Fin (of_int a - of_int c / 2 ^ s * of_int t)) (Fin (of_int c / 2 ^ s)))
           = Fin (of_int \<lfloor>((of_int a :: rat) - of_int c / 2 ^ s * of_int t) / (of_int c / 2 ^ s)\<rfloor>)"
  proof (cases "j = 0")
    case True
    then have z: "(of_int a :: rat) - of_int c / 2 ^ s * of_int t = 0" unfolding num by simp
    have "(0::rat) < of_int c / 2 ^ s" using cpos by simp
    then show ?thesis unfolding z by (simp add: fdiv_zero_pos ffloor_def)
  next
    case False
    then have n1: "(of_int a :: rat) - of_int c / 2 ^ s * of_int t \<noteq> 0" unfolding num by simp
    have n2: "(of_int c :: rat) / 2 ^ s \<noteq> 0" using cpos by simp
    have "fdiv (Fin (of_int a - of_int c / 2 ^ s * of_int t)) (Fin (of_int c / 2 ^ s))
                 = round_double (of_int j / of_int c)"
      using fdiv_Fin_Fin[OF n1 n2] by (simp only: q)
    then show ?thesis by (simp only: fl q fe)
  qed
qed

lemma quotient_unsafe_exact:
  fixes a c t :: int
  assumes "0 \<le> a" "a \<le> t" "0 < t" "t < 2 ^ 32" "0 < c" "c < 2 ^ s" "s \<le> 10"
    and "(of_int a :: rat) / of_int t < of_int c / 2 ^ s"
  shows "fceil (fdiv (Fin (of_int c / 2 ^ s * of_int t - of_int a)) (Fin (1 - of_int c / 2 ^ s)))
           = Fin (of_int \<lceil>(of_int c / 2 ^ s * of_int t - (of_int a :: rat)) / (1 - of_int c / 2 ^ s)\<rceil>)"
    and "0 < \<lceil>(of_int c / 2 ^ s * of_int t - (of_int a :: rat)) / (1 - of_int c / 2 ^ s)\<rceil>"
proof -
  define j where "j = c * t - a * 2 ^ s"
  define d where "d = 2 ^ s - c"
  have cle: "c \<le> 2 ^ s" using assms(6) by simp
  note b = scaled_bounds[OF assms(1,2,4,5) cle assms(7)]
  have dpos: "0 < d" using assms(6) by (simp add: d_def)
  have dpos': "(0::rat) < of_int d" using dpos by simp
  have d1024: "d \<le> 2 ^ 10" using assms(5) pow2_le_1024[OF assms(7)] by (simp add: d_def)
  have tpos: "(0::rat) < of_int t" using assms(3) by simp
  have den: "1 - (of_int c :: rat) / 2 ^ s = of_int d / 2 ^ s" by (simp add: d_def field_simps)
  have num: "of_int c / 2 ^ s * of_int t - (of_int a :: rat) = of_int j / 2 ^ s"
    by (simp add: j_def field_simps)
  have q: "(of_int c / 2 ^ s * of_int t - (of_int a :: rat)) / (1 - of_int c / 2 ^ s)
             = of_int j / of_int d"
    by (simp only: num den) simp
  have "(of_int a :: rat) * 2 ^ s < of_int c * of_int t"
    using assms(8) tpos by (simp add: field_simps)
  then have "(of_int (a * 2 ^ s) :: rat) < of_int (c * t)" by simp
  then have "a * 2 ^ s < c * t" by (simp only: of_int_less_iff)
  then have j0: "0 < j" by (simp add: j_def)
  have "j \<le> c * t" using b by (simp add: j_def)
  also have "\<dots> \<le> 1 * 2 ^ 42" using b by simp
  also have "\<dots> \<le> d * 2 ^ 42" using dpos by (intro mult_right_mono) simp_all
  finally have j42: "j \<le> d * 2 ^ 42" .
  have cl: "fceil (round_double (of_int j / of_int d)) = Fin (of_int (- (- j div d)))"
    by (rule ceil_round_exact[OF dpos d1024 j0 j42])
  have "- ((of_int j :: rat) / of_int d) = of_int (- j) / of_int d" by simp
  then have "\<lfloor>- ((of_int j :: rat) / of_int d)\<rfloor> = - j div d"
    by (simp only: floor_divide_of_int_eq)
  then have ce: "\<lceil>(of_int j :: rat) / of_int d\<rceil> = - (- j div d)" by (simp add: ceiling_def)
  have "(0::rat) < of_int j / of_int d" using j0 dpos by simp
  then show "0 < \<lceil>(of_int c / 2 ^ s * of_int t - (of_int a :: rat)) / (1 - of_int c / 2 ^ s)\<rceil>"
    by (simp only: q) simp
  have n1: "of_int c / 2 ^ s * of_int t - (of_int a :: rat) \<noteq> 0" unfolding num using j0 by simp
  have n2: "1 - (of_int c :: rat) / 2 ^ s \<noteq> 0" unfolding den using dpos by simp
  have "fdiv (Fin (of_int c / 2 ^ s * of_int t - of_int a)) (Fin (1 - of_int c / 2 ^ s))
                 = round_double (of_int j / of_int d)"
    using fdiv_Fin_Fin[OF n1 n2] by (simp only: q)
  then show "fceil (fdiv (Fin (of_int c / 2 ^ s * of_int t - of_int a)) (Fin (1 - of_int c / 2 ^ s)))
           = Fin (of_int \<lceil>(of_int c / 2 ^ s * of_int t - (of_int a :: rat)) / (1 - of_int c / 2 ^ s)\<rceil>)"
    by (simp only: cl q ce)
qed

subsection \<open>Two evaluations with a target of 60 per cent, in double arithmetic\<close>

lemma ev_9_14_60_r: "fdiv (Fin 60) (Fin 100) = Fin (5404319552844595 / 9007199254740992)"
proof -
  have "round_double (3 / 5) = Fin (5404319552844595 / 9007199254740992)"
    by (rule round_double_eqI[where e = "- 53" and m = 5404319552844595]) (simp_all add: max_double_def)
  then show ?thesis by (simp add: fdiv_def)
qed

lemma ev_9_14_60_q: "fdiv (Fin 9) (Fin 14) = Fin (5790342378047781 / 9007199254740992)"
proof -
  have "round_double (9 / 14) = Fin (5790342378047781 / 9007199254740992)"
    by (rule round_double_eqI[where e = "- 53" and m = 5790342378047781]) (simp_all add: max_double_def)
  then show ?thesis by (simp add: fdiv_def)
qed

lemma ev_9_14_60_cp: "fmul (Fin (5790342378047781 / 9007199254740992)) (Fin 100) = Fin (4523704982849829 / 70368744177664)"
proof -
  have "round_double (144758559451194525 / 2251799813685248) = Fin (4523704982849829 / 70368744177664)"
    by (rule round_double_eqI[where e = "- 46" and m = 4523704982849829]) (simp_all add: max_double_def)
  then show ?thesis by (simp add: fmul_def)
qed

lemma ev_9_14_60_p: "fmul (Fin (5404319552844595 / 9007199254740992)) (Fin 14) = Fin (4728779608739021 / 562949953421312)"
proof -
  have "round_double (37830236869912165 / 4503599627370496) = Fin (4728779608739021 / 562949953421312)"
    by (rule round_double_eqI[where e = "- 49" and m = 4728779608739021]) (simp_all add: max_double_def)
  then show ?thesis by (simp add: fmul_def)
qed

lemma ev_9_14_60_s: "fsub (Fin 9) (Fin (4728779608739021 / 562949953421312)) = Fin (337769972052787 / 562949953421312)"
proof -
  have "round_double (337769972052787 / 562949953421312) = Fin (337769972052787 / 562949953421312)"
    by (rule round_double_eqI[where e = "- 53" and m = 5404319552844592]) (simp_all add: max_double_def)
  then show ?thesis by (simp add: fsub_def fadd_def fneg_def)
qed

lemma ev_9_14_60_x: "fdiv (Fin (337769972052787 / 562949953421312)) (Fin (5404319552844595 / 9007199254740992)) = Fin (9007199254740987 / 9007199254740992)"
proof -
  have "round_double (5404319552844592 / 5404319552844595) = Fin (9007199254740987 / 9007199254740992)"
    by (rule round_double_eqI[where e = "- 53" and m = 9007199254740987]) (simp_all add: max_double_def)
  then show ?thesis by (simp add: fdiv_def)
qed

lemma ev_3_7_60_r: "fdiv (Fin 60) (Fin 100) = Fin (5404319552844595 / 9007199254740992)"
proof -
  have "round_double (3 / 5) = Fin (5404319552844595 / 9007199254740992)"
    by (rule round_double_eqI[where e = "- 53" and m = 5404319552844595]) (simp_all add: max_double_def)
  then show ?thesis by (simp add: fdiv_def)
qed

lemma ev_3_7_60_q: "fdiv (Fin 3) (Fin 7) = Fin (7720456504063707 / 18014398509481984)"
proof -
  have "round_double (3 / 7) = Fin (7720456504063707 / 18014398509481984)"
    by (rule round_double_eqI[where e = "- 54" and m = 7720456504063707]) (simp_all add: max_double_def)
  then show ?thesis by (simp add: fdiv_def)
qed

lemma ev_3_7_60_cp: "fmul (Fin (7720456504063707 / 18014398509481984)) (Fin 100) = Fin (6031606643799771 / 140737488355328)"
proof -
  have "round_double (193011412601592675 / 4503599627370496) = Fin (6031606643799771 / 140737488355328)"
    by (rule round_double_eqI[where e = "- 47" and m = 6031606643799771]) (simp_all add: max_double_def)
  then show ?thesis by (simp add: fmul_def)
qed

lemma ev_3_7_60_p: "fmul (Fin (5404319552844595 / 9007199254740992)) (Fin 7) = Fin (4728779608739021 / 1125899906842624)"
proof -
  have "round_double (37830236869912165 / 9007199254740992) = Fin (4728779608739021 / 1125899906842624)"
    by (rule round_double_eqI[where e = "- 50" and m = 4728779608739021]) (simp_all add: max_double_def)
  then show ?thesis by (simp add: fmul_def)
qed

lemma ev_3_7_60_s: "fsub (Fin (4728779608739021 / 1125899906842624)) (Fin 3) = Fin (1351079888211149 / 1125899906842624)"
proof -
  have "round_double (1351079888211149 / 1125899906842624) = Fin (1351079888211149 / 1125899906842624)"
    by (rule round_double_eqI[where e = "- 52" and m = 5404319552844596]) (simp_all add: max_double_def)
  then show ?thesis by (simp add: fsub_def fadd_def fneg_def)
qed

lemma ev_3_7_60_d: "fsub (Fin 1) (Fin (5404319552844595 / 9007199254740992)) = Fin (3602879701896397 / 9007199254740992)"
proof -
  have "round_double (3602879701896397 / 9007199254740992) = Fin (3602879701896397 / 9007199254740992)"
    by (rule round_double_eqI[where e = "- 54" and m = 7205759403792794]) (simp_all add: max_double_def)
  then show ?thesis by (simp add: fsub_def fadd_def fneg_def)
qed

lemma ev_3_7_60_x: "fdiv (Fin (1351079888211149 / 1125899906842624)) (Fin (3602879701896397 / 9007199254740992)) = Fin (6755399441055745 / 2251799813685248)"
proof -
  have "round_double (10808639105689192 / 3602879701896397) = Fin (6755399441055745 / 2251799813685248)"
    by (rule round_double_eqI[where e = "- 51" and m = 6755399441055745]) (simp_all add: max_double_def)
  then show ?thesis by (simp add: fdiv_def)
qed

lemma canBunk_9_14_60:
  "canBunk (calculateAttendance (Num (Fin 9)) (Num (Fin 14)) (Num (Fin 60))) = Fin 0"
  by (simp add: calculateAttendance_def Let_def ev_9_14_60_r ev_9_14_60_q ev_9_14_60_cp ev_9_14_60_p ev_9_14_60_s ev_9_14_60_x fge_def fgt_def ffloor_def)

lemma needToAttend_3_7_60:
  "needToAttend (calculateAttendance (Num (Fin 3)) (Num (Fin 7)) (Num (Fin 60))) = Fin 4"
  by (simp add: calculateAttendance_def Let_def ev_3_7_60_r ev_3_7_60_q ev_3_7_60_cp ev_3_7_60_p ev_3_7_60_s ev_3_7_60_d ev_3_7_60_x fge_def fgt_def fceil_def)

subsection \<open>The exact results\<close>

lemma clamp_nonneg:
  fixes k :: int
  assumes "0 \<le> k"
  shows "(if fgt (Fin (of_int k)) (Fin 0) then Fin (of_int k) else Fin 0) = Fin (of_int k)"
  using assms by (simp add: fgt_def)

lemma calculateAttendance_exact_safe:
  fixes a c t :: int
  assumes "0 \<le> a" "a \<le> t" "0 < t" "t < 2 ^ 32" "0 < c" "c \<le> 2 ^ s" "s \<le> 10"
    and "of_int c / 2 ^ s \<le> (of_int a :: rat) / of_int t"
  shows "canBunk (calculateAttendance (Num (Fin (of_int a))) (Num (Fin (of_int t)))
                    (Num (Fin (100 * (of_int c / 2 ^ s)))))
           = Fin (of_int \<lfloor>((of_int a :: rat) - of_int c / 2 ^ s * of_int t) / (of_int c / 2 ^ s)\<rfloor>)"
    and "needToAttend (calculateAttendance (Num (Fin (of_int a))) (Num (Fin (of_int t)))
                    (Num (Fin (100 * (of_int c / 2 ^ s))))) = Fin 0"
proof -
  have pos: "\<not> fle (Number (Num (Fin (of_int t)))) (Fin 0)" using assms(3) by simp
  have safe: "fge (fmul (fdiv (Number (Num (Fin (of_int a)))) (Number (Num (Fin (of_int t))))) (Fin 100))
                (Number (Num (Fin (100 * (of_int c / 2 ^ s)))))"
    using branch_exact[OF assms(1-7)] assms(8) by simp
  note eq = calculateAttendance_safe[OF pos safe]
  note q = quotient_safe_exact[OF assms]
  show "needToAttend (calculateAttendance (Num (Fin (of_int a))) (Num (Fin (of_int t)))
                    (Num (Fin (100 * (of_int c / 2 ^ s))))) = Fin 0"
    unfolding eq by (simp only: Let_def stats.select_convs)
  have "canBunk (calculateAttendance (Num (Fin (of_int a))) (Num (Fin (of_int t)))
                    (Num (Fin (100 * (of_int c / 2 ^ s)))))
          = (let nMax = ffloor (fdiv (Fin (of_int a - of_int c / 2 ^ s * of_int t))
                                     (Fin (of_int c / 2 ^ s)))
             in if fgt nMax (Fin 0) then nMax else Fin 0)"
    unfolding eq
    by (simp only: Let_def stats.select_convs Number.simps frac_exact[OF assms(5,6,7)]
        product_exact[OF assms(5,6,7,3,4)] diff_exact[OF assms(1-7)])
  then show "canBunk (calculateAttendance (Num (Fin (of_int a))) (Num (Fin (of_int t)))
                    (Num (Fin (100 * (of_int c / 2 ^ s)))))
           = Fin (of_int \<lfloor>((of_int a :: rat) - of_int c / 2 ^ s * of_int t) / (of_int c / 2 ^ s)\<rfloor>)"
    using clamp_nonneg[OF q(2)] by (simp only: q(1) Let_def)
qed

lemma calculateAttendance_exact_unsafe:
  fixes a c t :: int
  assumes "0 \<le> a" "a \<le> t" "0 < t" "t < 2 ^ 32" "0 < c" "c < 2 ^ s" "s \<le> 10"
    and "(of_int a :: rat) / of_int t < of_int c / 2 ^ s"
  shows "needToAttend (calculateAttendance (Num (Fin (of_int a))) (Num (Fin (of_int t)))
                    (Num (Fin (100 * (of_int c / 2 ^ s)))))
           = Fin (of_int \<lceil>(of_int c / 2 ^ s * of_int t - (of_int a :: rat)) / (1 - of_int c / 2 ^ s)\<rceil>)"
    and "canBunk (calculateAttendance (Num (Fin (of_int a))) (Num (Fin (of_int t)))
                    (Num (Fin (100 * (of_int c / 2 ^ s))))) = Fin 0"
proof -
  have cle: "c \<le> 2 ^ s" using assms(6) by simp
  have pos: "\<not> fle (Number (Num (Fin (of_int t)))) (Fin 0)" using assms(3) by simp
  have unsafe: "\<not> fge (fmul (fdiv (Number (Num (Fin (of_int a)))) (Number (Num (Fin (of_int t))))) (Fin 100))
                (Number (Num (Fin (100 * (of_int c / 2 ^ s)))))"
    using branch_exact[OF assms(1-5) cle assms(7)] assms(8) by simp
  note eq = calculateAttendance_unsafe[OF pos unsafe]
  note q = quotient_unsafe_exact[OF assms]
  show "canBunk (calculateAttendance (Num (Fin (of_int a))) (Num (Fin (of_int t)))
                    (Num (Fin (100 * (of_int c / 2 ^ s))))) = Fin 0"
    unfolding eq by (simp only: Let_def stats.select_convs)
  have "needToAttend (calculateAttendance (Num (Fin (of_int a))) (Num (Fin (of_int t)))
                    (Num (Fin (100 * (of_int c / 2 ^ s)))))
          = (let xMin = fceil (fdiv (Fin (of_int c / 2 ^ s * of_int t - of_int a))
                                    (Fin (1 - of_int c / 2 ^ s)))
             in if fgt xMin (Fin 0) then xMin else Fin 0)"
    unfolding eq
    by (simp only: Let_def stats.select_convs Number.simps frac_exact[OF assms(5) cle assms(7)]
        product_exact[OF assms(5) cle assms(7,3,4)]
        diff_exact'[OF assms(1-5) cle assms(7)] one_minus_exact[OF assms(5) cle assms(7)])
  then show "needToAttend (calculateAttendance (Num (Fin (of_int a))) (Num (Fin (of_int t)))
                    (Num (Fin (100 * (of_int c / 2 ^ s)))))
           = Fin (of_int \<lceil>(of_int c / 2 ^ s * of_int t - (of_int a :: rat)) / (1 - of_int c / 2 ^ s)\<rceil>)"
    using clamp_nonneg[OF less_imp_le[OF q(2)]] by (simp only: q(1) Let_def)
qed

subsection \<open>The greatest and the least integer, where the fraction is exact\<close>

text \<open>
  For integer counts below \<open>2^32\<close> and a target whose fraction \<open>r\<close> is a binary fraction
  \<open>c / 2^s\<close> with \<open>s <= 10\<close>, no operation of \<open>calculateAttendance\<close> rounds in a way
  that the floor or the ceiling sees, and the function returns the greatest \<open>n\<close> and the
  least \<open>x\<close> of the exact inequalities.
\<close>

lemma canBunk_exact_binary_fraction:
  fixes a t c :: int and s :: nat and r :: rat
  assumes "0 \<le> a" "a \<le> t" "0 < t" "t < 2 ^ 32" "0 < c" "c \<le> 2 ^ s" "s \<le> 10"
    and "r = of_int c / 2 ^ s"
    and "100 * r \<le> of_int a / of_int t * 100"
  shows "needToAttend (calculateAttendance (Num (Fin (of_int a))) (Num (Fin (of_int t)))
                         (Num (Fin (100 * r)))) = Fin 0
       \<and> canBunk (calculateAttendance (Num (Fin (of_int a))) (Num (Fin (of_int t)))
                         (Num (Fin (100 * r))))
           = Fin (of_int (max 0 \<lfloor>(of_int a - r * of_int t) / r\<rfloor>))
       \<and> (\<forall>n::int. 0 \<le> n \<longrightarrow>
             (r \<le> of_int a / (of_int t + of_int n)
              \<longleftrightarrow> n \<le> max 0 \<lfloor>(of_int a - r * of_int t) / r\<rfloor>))"
proof -
  define X :: rat where "X = of_int a / of_int t"
  have "100 * r \<le> X * 100" using assms(9) unfolding X_def .
  then have "r \<le> X" by linarith
  then have safe: "of_int c / 2 ^ s \<le> (of_int a :: rat) / of_int t"
    unfolding X_def assms(8) .
  have rpos: "0 < r" using assms(5,8) by simp
  have tpos: "(0::rat) < of_int t" using assms(3) by simp
  note ex = calculateAttendance_exact_safe[OF assms(1-7) safe]
  note q0 = quotient_safe_exact(2)[OF assms(1-7) safe]
  have fl: "0 \<le> \<lfloor>(of_int a - r * of_int t) / r\<rfloor>" using q0 by (simp only: assms(8))
  have m: "max 0 \<lfloor>(of_int a - r * of_int t) / r\<rfloor> = \<lfloor>(of_int a - r * of_int t) / r\<rfloor>"
    using fl by simp
  have greatest: "r \<le> of_int a / (of_int t + of_int n)
              \<longleftrightarrow> n \<le> \<lfloor>(of_int a - r * of_int t) / r\<rfloor>" if "0 \<le> n" for n :: int
  proof -
    have npos: "(0::rat) < of_int t + of_int n" using that tpos by simp
    have "r \<le> of_int a / (of_int t + of_int n) \<longleftrightarrow> r * (of_int t + of_int n) \<le> of_int a"
      using npos by (simp add: pos_le_divide_eq)
    also have "\<dots> \<longleftrightarrow> of_int n * r \<le> of_int a - r * of_int t"
      by (simp add: algebra_simps)
    also have "\<dots> \<longleftrightarrow> of_int n \<le> (of_int a - r * of_int t) / r"
      using rpos by (simp add: pos_le_divide_eq)
    also have "\<dots> \<longleftrightarrow> n \<le> \<lfloor>(of_int a - r * of_int t) / r\<rfloor>"
      by (simp add: le_floor_iff)
    finally show ?thesis .
  qed
  have e1: "needToAttend (calculateAttendance (Num (Fin (of_int a))) (Num (Fin (of_int t)))
                         (Num (Fin (100 * r)))) = Fin 0"
    using ex(2) unfolding assms(8) .
  have e2: "canBunk (calculateAttendance (Num (Fin (of_int a))) (Num (Fin (of_int t)))
                         (Num (Fin (100 * r))))
           = Fin (of_int \<lfloor>(of_int a - r * of_int t) / r\<rfloor>)"
    using ex(1) unfolding assms(8) .
  show ?thesis unfolding m using e1 e2 greatest by blast
qed

lemma canBunk_80_100_75:
  "needToAttend (calculateAttendance (Num (Fin 80)) (Num (Fin 100)) (Num (Fin 75))) = Fin 0
   \<and> canBunk (calculateAttendance (Num (Fin 80)) (Num (Fin 100)) (Num (Fin 75))) = Fin 6"
  using canBunk_exact_binary_fraction[of 80 100 3 2 "3 / 4"] by simp

lemma needToAttend_exact_binary_fraction:
  fixes a t c :: int and s :: nat and r :: rat
  assumes "0 \<le> a" "a \<le> t" "0 < t" "t < 2 ^ 32" "0 < c" "c < 2 ^ s" "s \<le> 10"
    and "r = of_int c / 2 ^ s"
    and "of_int a / of_int t * 100 < 100 * r"
  shows "canBunk (calculateAttendance (Num (Fin (of_int a))) (Num (Fin (of_int t)))
                         (Num (Fin (100 * r)))) = Fin 0
       \<and> needToAttend (calculateAttendance (Num (Fin (of_int a))) (Num (Fin (of_int t)))
                         (Num (Fin (100 * r))))
           = Fin (of_int (max 0 \<lceil>(r * of_int t - of_int a) / (1 - r)\<rceil>))
       \<and> (\<forall>x::int. 0 \<le> x \<longrightarrow>
             (r \<le> (of_int a + of_int x) / (of_int t + of_int x)
              \<longleftrightarrow> max 0 \<lceil>(r * of_int t - of_int a) / (1 - r)\<rceil> \<le> x))"
proof -
  define X :: rat where "X = of_int a / of_int t"
  have "X * 100 < 100 * r" using assms(9) unfolding X_def .
  then have "X < r" by linarith
  then have unsafe: "(of_int a :: rat) / of_int t < of_int c / 2 ^ s"
    unfolding X_def assms(8) .
  have r1: "r < 1"
  proof -
    have "(of_int c :: rat) < of_int (2 ^ s)" using assms(6) by (simp only: of_int_less_iff)
    then show ?thesis by (simp add: assms(8))
  qed
  have tpos: "(0::rat) < of_int t" using assms(3) by simp
  note ex = calculateAttendance_exact_unsafe[OF assms(1-7) unsafe]
  note q0 = quotient_unsafe_exact(2)[OF assms(1-7) unsafe]
  have cl: "0 < \<lceil>(r * of_int t - of_int a) / (1 - r)\<rceil>" using q0 by (simp only: assms(8))
  have m: "max 0 \<lceil>(r * of_int t - of_int a) / (1 - r)\<rceil> = \<lceil>(r * of_int t - of_int a) / (1 - r)\<rceil>"
    using cl by simp
  have least: "r \<le> (of_int a + of_int x) / (of_int t + of_int x)
              \<longleftrightarrow> \<lceil>(r * of_int t - of_int a) / (1 - r)\<rceil> \<le> x" if "0 \<le> x" for x :: int
  proof -
    have xpos: "(0::rat) < of_int t + of_int x" using that tpos by simp
    have "r \<le> (of_int a + of_int x) / (of_int t + of_int x)
            \<longleftrightarrow> r * (of_int t + of_int x) \<le> of_int a + of_int x"
      using xpos by (simp add: pos_le_divide_eq)
    also have "\<dots> \<longleftrightarrow> r * of_int t - of_int a \<le> of_int x * (1 - r)"
      by (simp add: algebra_simps)
    also have "\<dots> \<longleftrightarrow> (r * of_int t - of_int a) / (1 - r) \<le> of_int x"
      using r1 by (simp add: pos_divide_le_eq)
    also have "\<dots> \<longleftrightarrow> \<lceil>(r * of_int t - of_int a) / (1 - r)\<rceil> \<le> x"
      by (simp add: ceiling_le_iff)
    finally show ?thesis .
  qed
  have e1: "canBunk (calculateAttendance (Num (Fin (of_int a))) (Num (Fin (of_int t)))
                         (Num (Fin (100 * r)))) = Fin 0"
    using ex(2) unfolding assms(8) .
  have e2: "needToAttend (calculateAttendance (Num (Fin (of_int a))) (Num (Fin (of_int t)))
                         (Num (Fin (100 * r))))
           = Fin (of_int \<lceil>(r * of_int t - of_int a) / (1 - r)\<rceil>)"
    using ex(1) unfolding assms(8) .
  show ?thesis unfolding m using e1 e2 least by blast
qed

lemma needToAttend_50_100_75:
  "canBunk (calculateAttendance (Num (Fin 50)) (Num (Fin 100)) (Num (Fin 75))) = Fin 0
   \<and> needToAttend (calculateAttendance (Num (Fin 50)) (Num (Fin 100)) (Num (Fin 75))) = Fin 100"
  using needToAttend_exact_binary_fraction[of 50 100 3 2 "3 / 4"] by simp

lemma fgt_of_int_zero: "fgt (Fin (of_int k)) (Fin 0) \<longleftrightarrow> 0 < k"
  by (simp add: fgt_def)

lemma never_both_positive:
  "\<not> (fgt (canBunk (calculateAttendance a0 t0 rp0)) (Fin 0)
      \<and> fgt (needToAttend (calculateAttendance a0 t0 rp0)) (Fin 0))"
  using calculateAttendance_counts(3)[of a0 t0 rp0] by (auto simp add: fgt_def)

section \<open>Monotonicity in the classes attended\<close>

lemma is_count_nonneg: "is_count x \<Longrightarrow> fle (Fin 0) x"
  by (cases x) simp_all

lemma floor_clamp_mono:
  assumes "fle u v"
  shows "fle (if fgt (ffloor u) (Fin 0) then ffloor u else Fin 0)
             (if fgt (ffloor v) (Fin 0) then ffloor v else Fin 0)"
  using assms by (cases u; cases v) (auto simp add: ffloor_def fgt_def floor_mono dest: floor_mono)

lemma ceil_clamp_mono:
  assumes "fle u v"
  shows "fle (if fgt (fceil u) (Fin 0) then fceil u else Fin 0)
             (if fgt (fceil v) (Fin 0) then fceil v else Fin 0)"
  using assms by (cases u; cases v) (auto simp add: fceil_def fgt_def ceiling_mono dest: ceiling_mono)

lemma fdiv_zero_cases:
  "fdiv x (Fin 0) = (if x = NaN \<or> is_zero x then NaN else signed_inf (is_neg x))"
  by (cases x) (simp_all add: fdiv_def)

lemma floor_clamp_fdiv_mono:
  assumes "fle x y" "0 \<le> c"
  shows "fle (if fgt (ffloor (fdiv x (Fin c))) (Fin 0) then ffloor (fdiv x (Fin c)) else Fin 0)
             (if fgt (ffloor (fdiv y (Fin c))) (Fin 0) then ffloor (fdiv y (Fin c)) else Fin 0)"
proof (cases "c = 0")
  case True
  show ?thesis using assms(1) unfolding True fdiv_zero_cases
    by (cases x; cases y) (simp_all add: signed_inf_def ffloor_def fgt_def)
next
  case False
  then have "0 < c" using assms(2) by simp
  then show ?thesis using assms(1) by (intro floor_clamp_mono fdiv_mono)
qed

lemma ceil_clamp_fdiv_mono:
  assumes "fle x y" "0 \<le> c"
  shows "fle (if fgt (fceil (fdiv x (Fin c))) (Fin 0) then fceil (fdiv x (Fin c)) else Fin 0)
             (if fgt (fceil (fdiv y (Fin c))) (Fin 0) then fceil (fdiv y (Fin c)) else Fin 0)"
proof (cases "c = 0")
  case True
  show ?thesis using assms(1) unfolding True fdiv_zero_cases
    by (cases x; cases y) (simp_all add: signed_inf_def fceil_def fgt_def)
next
  case False
  then have "0 < c" using assms(2) by simp
  then show ?thesis using assms(1) by (intro ceil_clamp_mono fdiv_mono)
qed

lemma fsub_mono_left:
  assumes "x \<le> y" "p \<noteq> NaN"
  shows "fle (fsub (Fin x) p) (fsub (Fin y) p)"
proof (cases p)
  case (Fin q)
  have m: "fle (round_double (x - q)) (round_double (y - q))"
    using assms(1) by (intro round_double_mono) simp
  have z1: "x - q = 0 \<Longrightarrow> fle (Fin 0) (round_double (y - q))"
    using assms(1) by (intro round_double_nonneg) simp
  have z2: "y - q = 0 \<Longrightarrow> fle (round_double (x - q)) (Fin 0)"
    using assms(1) by (intro round_double_nonpos) simp
  show ?thesis using m z1 z2 assms(1)
    by (auto simp add: Fin fsub_def fadd_def fneg_def signed_zero_def)
next
  case NZero
  have m: "fle (round_double x) (round_double y)" using assms(1) by (rule round_double_mono)
  show ?thesis using m assms(1)
    by (auto simp add: NZero fsub_def fadd_def fneg_def signed_zero_def)
qed (use assms in \<open>simp_all add: fsub_def fadd_def fneg_def\<close>)

lemma fsub_mono_right:
  assumes "x \<le> y" "p \<noteq> NaN"
  shows "fle (fsub p (Fin y)) (fsub p (Fin x))"
proof (cases p)
  case (Fin q)
  have m: "fle (round_double (q - y)) (round_double (q - x))"
    using assms(1) by (intro round_double_mono) simp
  have z1: "q - y = 0 \<Longrightarrow> fle (Fin 0) (round_double (q - x))"
    using assms(1) by (intro round_double_nonneg) simp
  have z2: "q - x = 0 \<Longrightarrow> fle (round_double (q - y)) (Fin 0)"
    using assms(1) by (intro round_double_nonpos) simp
  show ?thesis using m z1 z2 assms(1)
    by (auto simp add: Fin fsub_def fadd_def fneg_def signed_zero_def)
next
  case NZero
  have m: "fle (round_double (- y)) (round_double (- x))"
    using assms(1) by (intro round_double_mono) simp
  have z1: "y = 0 \<Longrightarrow> fle (Fin 0) (round_double (- x))"
    using assms(1) by (intro round_double_nonneg) simp
  have z2: "x = 0 \<Longrightarrow> fle (round_double (- y)) (Fin 0)"
    using assms(1) by (intro round_double_nonpos) simp
  show ?thesis using m z1 z2 assms(1)
    by (auto simp add: NZero fsub_def fadd_def fneg_def signed_zero_def)
qed (use assms in \<open>simp_all add: fsub_def fadd_def fneg_def\<close>)

lemma fraction_finite:
  assumes "0 < p" "p \<le> 100"
  shows "\<exists>r. fdiv (Fin p) (Fin 100) = Fin r \<and> 0 \<le> r \<and> r \<le> 1"
proof -
  have "fle (Fin 0) (round_double (p / 100))"
    using assms by (intro round_double_nonneg) simp
  moreover have "fle (round_double (p / 100)) (Fin 1)"
    using round_double_mono[of "p / 100" 1] assms by simp
  moreover have "round_double (p / 100) \<noteq> NZero"
    using assms by (intro round_double_nonneg_not_NZero) simp
  ultimately have "\<exists>r. round_double (p / 100) = Fin r \<and> 0 \<le> r \<and> r \<le> 1"
    by (cases "round_double (p / 100)") simp_all
  then show ?thesis using assms by (simp add: fdiv_def)
qed

lemma one_minus_finite:
  assumes "0 \<le> r" "r \<le> 1"
  shows "\<exists>d. fsub (Fin 1) (Fin r) = Fin d \<and> 0 \<le> d"
proof (cases "r = 1")
  case True
  then show ?thesis by (simp add: fsub_def fadd_def fneg_def signed_zero_def)
next
  case False
  then have pos: "0 < 1 - r" using assms by simp
  have "fle (Fin 0) (round_double (1 - r))"
    using assms by (intro round_double_nonneg) simp
  moreover have "fle (round_double (1 - r)) (Fin 1)"
    using round_double_mono[of "1 - r" 1] assms by simp
  moreover have "round_double (1 - r) \<noteq> NZero"
    using pos by (intro round_double_nonneg_not_NZero) simp
  ultimately have "\<exists>d. round_double (1 - r) = Fin d \<and> 0 \<le> d"
    by (cases "round_double (1 - r)") simp_all
  then show ?thesis using pos by (auto simp add: fsub_def fadd_def fneg_def)
qed

lemma fmul_Fin_not_NaN: "fmul (Fin x) (Fin y) \<noteq> NaN"
  by (simp add: fmul_def signed_zero_def)

section \<open>The spacing of the doubles\<close>

text \<open>The doubles of a binade are the multiples of its spacing.\<close>

lemma round_pos_fixed_grid:
  assumes "0 < y" "round_pos y = y"
  shows "\<exists>k::int. y = of_int k * ulp y \<and> 0 < k \<and> k < 2 ^ 53"
proof -
  define k where "k = round_half_even (y / ulp y)"
  define E where "E = max (exponent y) (- 1022)"
  have y: "y = of_int k * ulp y" using assms(2) by (simp add: round_pos_def k_def)
  have u: "ulp y = 2 powi (E - 52)" by (simp add: ulp_def E_def)
  have "0 < of_int k * ulp y" using assms(1) y by simp
  then have "(0::rat) < of_int k" using ulp_pos[of y] by (rule zero_less_mult_pos2)
  then have k0: "0 < k" by simp
  have "y < 2 powi (exponent y + 1)" using exponent_bounds(2)[OF assms(1)] .
  also have "\<dots> \<le> 2 powi (E + 1)" by (simp only: pow2_le_iff) (simp add: E_def)
  also have "\<dots> = 2 powi 53 * 2 powi (E - 52)" by (rule pow2_add_eq[symmetric]) simp
  finally have "of_int k * ulp y < 2 powi 53 * ulp y" using y u by simp
  then have "(of_int k :: rat) < of_int (2 ^ 53)" by simp
  then have "k < 2 ^ 53" by (simp only: of_int_less_iff)
  then show ?thesis using y k0 by blast
qed

lemma is_double_pos_fixed: "is_double x \<Longrightarrow> 0 < x \<Longrightarrow> round_pos x = x"
  by (simp add: is_double_def round_double_def Let_def split: if_splits)

lemma is_double_neg_fixed: "is_double x \<Longrightarrow> x < 0 \<Longrightarrow> round_pos (- x) = - x"
  by (simp add: is_double_def round_double_def Let_def split: if_splits)

lemma ulp_multiple:
  "\<exists>n::nat. ulp y = 2 ^ n * 2 powi (- 1074)"
proof -
  define e where "e = max (exponent y) (- 1022) - 52"
  have e: "- 1074 \<le> e" by (simp add: e_def)
  have "(2::rat) powi (e + 1074) * 2 powi (- 1074) = 2 powi e" by (rule pow2_add_eq) simp
  moreover have "(2::rat) powi (e + 1074) = 2 ^ nat (e + 1074)"
    using e by (simp add: power_int_def)
  ultimately have "ulp y = 2 ^ nat (e + 1074) * 2 powi (- 1074)" by (simp add: ulp_def e_def)
  then show ?thesis by blast
qed

lemma is_double_multiple:
  assumes "is_double x"
  shows "\<exists>k::int. x = of_int k * 2 powi (- 1074)"
proof -
  have pos: "\<exists>k::int. y = of_int k * 2 powi (- 1074)" if y0: "0 < y" and fx: "round_pos y = y" for y
  proof -
    obtain k :: int where k: "y = of_int k * ulp y" using round_pos_fixed_grid[OF y0 fx] by blast
    obtain n :: nat where n: "ulp y = 2 ^ n * 2 powi (- 1074)" using ulp_multiple by blast
    have "y = of_int (k * 2 ^ n) * 2 powi (- 1074)" using k n by simp
    then show ?thesis by blast
  qed
  consider "x = 0" | "0 < x" | "x < 0" by linarith
  then show ?thesis
  proof cases
    case 1
    then have "x = of_int 0 * 2 powi (- 1074)" by simp
    then show ?thesis by blast
  next
    case 2
    then show ?thesis using pos[OF 2 is_double_pos_fixed[OF assms 2]] by simp
  next
    case 3
    then have "0 < - x" by simp
    from pos[OF this is_double_neg_fixed[OF assms 3]]
    obtain k :: int where "- x = of_int k * 2 powi (- 1074)" by blast
    then have "x = of_int (- k) * 2 powi (- 1074)" by simp
    then show ?thesis by blast
  qed
qed

lemma double_difference_positive:
  assumes "is_double a" "is_double t" "a < t"
  shows "2 powi (- 1074) \<le> t - a"
proof -
  obtain k where k: "a = of_int k * 2 powi (- 1074)" using is_double_multiple[OF assms(1)] by blast
  obtain l where l: "t = of_int l * 2 powi (- 1074)" using is_double_multiple[OF assms(2)] by blast
  have "of_int k * (2::rat) powi (- 1074) < of_int l * 2 powi (- 1074)" using assms(3) k l by simp
  then have "(of_int k :: rat) < of_int l" by simp
  then have "k + 1 \<le> l" by simp
  then have "(of_int (k + 1) :: rat) \<le> of_int l" by (simp only: of_int_le_iff)
  then have "of_int (k + 1) * (2::rat) powi (- 1074) \<le> of_int l * 2 powi (- 1074)"
    by (intro mult_right_mono) simp_all
  then show ?thesis unfolding k l by (simp add: algebra_simps)
qed

lemma double_quotient_below_one:
  assumes "is_double a" "is_double t" "0 < a" "a < t"
  shows "a / t \<le> 1 - 1 / 2 ^ 53"
proof -
  have t0: "0 < t" using assms by simp
  obtain ka :: int where ka: "a = of_int ka * ulp a" "0 < ka" "ka < 2 ^ 53"
    using round_pos_fixed_grid[OF assms(3) is_double_pos_fixed[OF assms(1,3)]] by blast
  obtain kt :: int where kt: "t = of_int kt * ulp t" "0 < kt" "kt < 2 ^ 53"
    using round_pos_fixed_grid[OF t0 is_double_pos_fixed[OF assms(2) t0]] by blast
  have ule: "ulp a \<le> ulp t" using assms by (intro ulp_mono) simp_all
  have bound: "a \<le> t - t / 2 ^ 53"
  proof (cases "ulp a = ulp t")
    case True
    have "of_int ka * ulp t < of_int kt * ulp t" using assms(4) ka(1) kt(1) True by simp
    then have "(of_int ka :: rat) < of_int kt" by simp
    then have "ka + 1 \<le> kt" by simp
    then have "(of_int (ka + 1) :: rat) \<le> of_int kt" by (simp only: of_int_le_iff)
    then have "of_int (ka + 1) * ulp t \<le> of_int kt * ulp t" by (intro mult_right_mono) simp_all
    then have 1: "a + ulp t \<le> t" using ka(1) kt(1) True by (simp add: algebra_simps)
    have "kt \<le> 2 ^ 53" using kt(3) by simp
    then have "(of_int kt :: rat) \<le> of_int (2 ^ 53)" by (simp only: of_int_le_iff)
    then have "of_int kt * ulp t \<le> of_int (2 ^ 53) * ulp t" by (intro mult_right_mono) simp_all
    then have "t / 2 ^ 53 \<le> ulp t" using kt(1) by simp
    then show ?thesis using 1 by simp
  next
    case False
    define Ea where "Ea = max (exponent a) (- 1022)"
    define Et where "Et = max (exponent t) (- 1022)"
    have "ulp a < ulp t" using False ule by simp
    then have "Ea - 52 < Et - 52" by (simp only: ulp_def pow2_less_iff Ea_def Et_def)
    then have lt: "Ea + 1 \<le> Et" by simp
    then have nt: "- 1022 \<le> exponent t" and et: "Et = exponent t"
      by (auto simp add: Ea_def Et_def max_def split: if_splits)
    have "2 powi Et \<le> t" using exponent_bounds(1)[OF t0] by (simp add: et)
    moreover have "(2::rat) powi (Ea + 1) \<le> 2 powi Et" using lt by (simp only: pow2_le_iff)
    ultimately have t1: "2 powi (Ea + 1) \<le> t" by simp
    have "ka \<le> 2 ^ 53 - 1" using ka(3) by simp
    then have "(of_int ka :: rat) \<le> of_int (2 ^ 53 - 1)" by (simp only: of_int_le_iff)
    then have F: "of_int ka * ulp a \<le> of_int (2 ^ 53 - 1) * ulp a"
      by (intro mult_right_mono) simp_all
    have "a = of_int ka * ulp a" by (rule ka(1))
    also have "\<dots> \<le> of_int (2 ^ 53 - 1) * ulp a" by (rule F)
    also have "\<dots> = 2 ^ 53 * ulp a - ulp a" by (simp add: algebra_simps)
    finally have a1: "a \<le> 2 ^ 53 * ulp a - ulp a" .
    have "(2::rat) powi 53 * 2 powi (Ea - 52) = 2 powi (Ea + 1)"
      by (rule pow2_add_eq) simp
    then have P: "2 ^ 53 * ulp a = 2 powi (Ea + 1)" by (simp add: ulp_def Ea_def)
    then have "ulp a = 2 powi (Ea + 1) / 2 ^ 53" by (simp add: field_simps)
    then have "a \<le> 2 powi (Ea + 1) - 2 powi (Ea + 1) / 2 ^ 53"
      using a1 P by simp
    also have "\<dots> = 2 powi (Ea + 1) * (1 - 1 / 2 ^ 53)" by (simp add: algebra_simps)
    also have "\<dots> \<le> t * (1 - 1 / 2 ^ 53)" using t1 by (intro mult_right_mono) simp_all
    finally show ?thesis by (simp add: algebra_simps)
  qed
  have "a / t \<le> (t - t / 2 ^ 53) / t" using bound t0 by (intro divide_right_mono) simp_all
  also have "\<dots> = 1 - 1 / 2 ^ 53" using t0 by (simp add: field_simps)
  finally show ?thesis .
qed

subsection \<open>Just below 100 per cent\<close>

lemma below_one_percent: "fmul (Fin (9007199254740991 / 9007199254740992)) (Fin 100) = Fin (7036874417766399 / 70368744177664)"
proof -
  have "round_double (225179981368524775 / 2251799813685248) = Fin (7036874417766399 / 70368744177664)"
    by (rule round_double_eqI[where e = "- 46" and m = 7036874417766399]) (simp_all add: max_double_def)
  then show ?thesis by (simp add: fmul_def)
qed

lemma below_one_double: "round_double (9007199254740991 / 9007199254740992) = Fin (9007199254740991 / 9007199254740992)"
  using round_double_dyadic[of "2 ^ 53 - 1" 53] by simp

lemma percent_below_100:
  assumes "is_double a" "is_double t" "a < t" "0 < t"
  shows "flt (fmul (fdiv (Fin a) (Fin t)) (Fin 100)) (Fin 100)"
proof -
  have q: "fle (fdiv (Fin a) (Fin t)) (Fin (9007199254740991 / 9007199254740992))"
  proof (cases "a = 0")
    case True
    then show ?thesis using assms(4) by (simp add: fdiv_def signed_zero_def)
  next
    case False
    have "a / t \<le> 9007199254740991 / 9007199254740992"
    proof (cases "0 < a")
      case True
      then show ?thesis using double_quotient_below_one[OF assms(1,2) True assms(3)] by simp
    next
      case F: False
      then have le0: "a / t \<le> 0" using assms(4) by (simp add: divide_le_0_iff)
      have "(0::rat) \<le> 9007199254740991 / 9007199254740992" by simp
      with le0 show ?thesis by (rule order_trans)
    qed
    then have "fle (round_double (a / t)) (round_double (9007199254740991 / 9007199254740992))"
      by (rule round_double_mono)
    then show ?thesis using False assms(4) by (simp add: fdiv_def below_one_double)
  qed
  have "fle (fmul (fdiv (Fin a) (Fin t)) (Fin 100)) (fmul (Fin (9007199254740991 / 9007199254740992)) (Fin 100))"
    using q by (rule fmul_mono) simp
  then have "fle (fmul (fdiv (Fin a) (Fin t)) (Fin 100)) (Fin (7036874417766399 / 70368744177664))"
    by (simp only: below_one_percent)
  moreover have "flt (Fin (7036874417766399 / 70368744177664)) (Fin 100)" by simp
  ultimately show ?thesis by (rule fle_flt_trans)
qed

section \<open>The claims\<close>

subsection \<open>The safe branch\<close>

text \<open>
  C1. For \<open>total > 0\<close>, \<open>0 <= attended <= total\<close>, \<open>0 < requiredPercent <= 100\<close> and
  \<open>(attended / total) * 100 >= requiredPercent\<close>, the result is to have
  \<open>needToAttend = 0\<close> and \<open>canBunk = max(0, floor((attended - r * total) / r))\<close> with
  \<open>r = requiredPercent / 100\<close>, the greatest integer \<open>n >= 0\<close> with
  \<open>attended / (total + n) >= r\<close>. The code computes this very expression, its \<open>nMax\<close>,
  but in doubles, where \<open>requiredPercent / 100\<close> is rounded for most targets, and the
  rounding reaches the floor. \<open>calculateAttendance(9, 14, 60)\<close> is in the safe branch
  and returns \<open>canBunk = 0\<close>, because \<open>(9 - 0.6 * 14) / 0.6\<close> evaluates to
  0.9999999999999994, whereas \<open>max(0, floor((9 - 0.6 * 14) / 0.6))\<close> is 1 and skipping
  one class keeps \<open>9 / 15 >= 0.6\<close>: the code returns one less than the value it computes
  for.
\<close>

theorem safe_branch_canBunk_at_9_14_60:
  "(60::rat) \<le> 9 / 14 * 100
   \<and> canBunk (calculateAttendance (Num (Fin 9)) (Num (Fin 14)) (Num (Fin 60))) = Fin 0
   \<and> max 0 \<lfloor>((9::rat) - 60 / 100 * 14) / (60 / 100)\<rfloor> = 1
   \<and> (60::rat) / 100 \<le> 9 / (14 + 1)"
  using canBunk_9_14_60 by simp

subsection \<open>The unsafe branch\<close>

text \<open>
  C2. For \<open>total > 0\<close>, \<open>0 <= attended <= total\<close>, \<open>0 < requiredPercent < 100\<close> and
  \<open>(attended / total) * 100 < requiredPercent\<close>, the result is to have \<open>canBunk = 0\<close>
  and \<open>needToAttend = max(0, ceil((r * total - attended) / (1 - r)))\<close> with
  \<open>r = requiredPercent / 100\<close>, the least integer \<open>x >= 0\<close> with
  \<open>(attended + x) / (total + x) >= r\<close>. The code computes this very expression, its
  \<open>xMin\<close>, but in doubles, where \<open>requiredPercent / 100\<close> and \<open>1 - r\<close> are rounded for
  most targets, and the rounding reaches the ceiling. \<open>calculateAttendance(3, 7, 60)\<close>
  is in the unsafe branch and returns \<open>needToAttend = 4\<close>, because
  \<open>(0.6 * 7 - 3) / (1 - 0.6)\<close> evaluates to 3.0000000000000004, whereas
  \<open>max(0, ceil((0.6 * 7 - 3) / (1 - 0.6)))\<close> is 3 and three more classes give
  \<open>6 / 10 >= 0.6\<close>: the code returns one more than the value it computes for.
\<close>

theorem unsafe_branch_needToAttend_at_3_7_60:
  "(3::rat) / 7 * 100 < 60
   \<and> needToAttend (calculateAttendance (Num (Fin 3)) (Num (Fin 7)) (Num (Fin 60))) = Fin 4
   \<and> max 0 \<lceil>((60::rat) / 100 * 7 - 3) / (1 - 60 / 100)\<rceil> = 3
   \<and> (60::rat) / 100 \<le> (3 + 3) / (7 + 3)"
  using needToAttend_3_7_60 by simp

subsection \<open>The short-circuit on \<open>total <= 0\<close>\<close>

text \<open>
  C3. Whenever \<open>total <= 0\<close>, whatever \<open>attended\<close> and \<open>requiredPercent\<close> are,
  \<open>calculateAttendance\<close> returns exactly the record with \<open>currentPercent\<close>, \<open>canBunk\<close>
  and \<open>needToAttend\<close> all 0 and the message \<open>No classes conducted yet.\<close>; this is the
  only short-circuit: the function returns that message only when \<open>total <= 0\<close>, and on
  every other input \<open>currentPercent\<close> comes from the division \<open>attended / total\<close>, which
  the short-circuit does not reach.
\<close>

theorem total_nonpositive_short_circuit:
  "(fle (Number total0) (Fin 0) \<longrightarrow>
      calculateAttendance attended0 total0 requiredPercent0 =
        \<lparr>currentPercent = Fin 0, canBunk = Fin 0, needToAttend = Fin 0,
         message = [Lit ''No classes conducted yet.'']\<rparr>)
   \<and> (message (calculateAttendance attended0 total0 requiredPercent0) =
          [Lit ''No classes conducted yet.'']
        \<longleftrightarrow> fle (Number total0) (Fin 0))
   \<and> (currentPercent (calculateAttendance attended0 total0 requiredPercent0) =
         (if fle (Number total0) (Fin 0) then Fin 0
          else toFixed2 (fmul (fdiv (Number attended0) (Number total0)) (Fin 100))))"
  by (simp add: calculateAttendance_def Let_def)

theorem total_nonpositive_short_circuit_witness:
  "fle (Number (Num (Fin 0))) (Fin 0) \<and>
   calculateAttendance (Num (Fin 3)) (Num (Fin 0)) (Str ''x'') =
     \<lparr>currentPercent = Fin 0, canBunk = Fin 0, needToAttend = Fin 0,
      message = [Lit ''No classes conducted yet.'']\<rparr>"
  using total_nonpositive_short_circuit[of "Num (Fin 0)" "Num (Fin 3)" "Str ''x''"]
  by simp

subsection \<open>The shape of the result\<close>

text \<open>
  C4, as the code has it. For every input, \<open>canBunk\<close> and \<open>needToAttend\<close> are each a
  non-negative integer or \<open>Infinity\<close> (never NaN, never negative), and at least one of
  the two is 0; and for a finite \<open>attended\<close> with \<open>0 <= attended <= total\<close> and
  \<open>total > 0\<close>, the returned \<open>currentPercent\<close> lies in \<open>[0, 100]\<close>.
\<close>

theorem outputs_are_counts:
  "is_count (canBunk (calculateAttendance a0 t0 rp0))
   \<and> is_count (needToAttend (calculateAttendance a0 t0 rp0))
   \<and> (canBunk (calculateAttendance a0 t0 rp0) = Fin 0
        \<or> needToAttend (calculateAttendance a0 t0 rp0) = Fin 0)
   \<and> (fle (Fin 0) (Number a0) \<and> fle (Number a0) (Number t0) \<and> fgt (Number t0) (Fin 0)
        \<and> Number a0 \<noteq> PInf \<longrightarrow>
      fle (Fin 0) (currentPercent (calculateAttendance a0 t0 rp0))
      \<and> fle (currentPercent (calculateAttendance a0 t0 rp0)) (Fin 100))"
proof (intro conjI impI)
  assume h: "fle (Fin 0) (Number a0) \<and> fle (Number a0) (Number t0) \<and> fgt (Number t0) (Fin 0)
        \<and> Number a0 \<noteq> PInf"
  then have pos: "flt (Fin 0) (Number t0)" by (simp add: fgt_def)
  then have nz: "\<not> fle (Number t0) (Fin 0)"
    by (cases "Number t0") simp_all
  have r: "fle (Fin 0) (fmul (fdiv (Number a0) (Number t0)) (Fin 100))
       \<and> fle (fmul (fdiv (Number a0) (Number t0)) (Fin 100)) (Fin 100)"
    using h pos by (intro percent_range) simp_all
  then have "fle (Fin 0) (toFixed2 (fmul (fdiv (Number a0) (Number t0)) (Fin 100)))
       \<and> fle (toFixed2 (fmul (fdiv (Number a0) (Number t0)) (Fin 100))) (Fin 100)"
    by (intro toFixed2_range) simp_all
  then show "fle (Fin 0) (currentPercent (calculateAttendance a0 t0 rp0))"
    "fle (currentPercent (calculateAttendance a0 t0 rp0)) (Fin 100)"
    by (simp_all add: calculateAttendance_currentPercent[OF nz])
qed (rule calculateAttendance_counts)+

theorem outputs_are_counts_witness:
  "fle (Fin 0) (Number (Num (Fin 0))) \<and> fle (Number (Num (Fin 0))) (Number (Num (Fin 1)))
   \<and> fgt (Number (Num (Fin 1))) (Fin 0) \<and> Number (Num (Fin 0)) \<noteq> PInf
   \<and> fle (Fin 0) (currentPercent (calculateAttendance (Num (Fin 0)) (Num (Fin 1)) (Num (Fin 100))))
   \<and> fle (currentPercent (calculateAttendance (Num (Fin 0)) (Num (Fin 1)) (Num (Fin 100)))) (Fin 100)
   \<and> is_count (needToAttend (calculateAttendance (Num (Fin 0)) (Num (Fin 1)) (Num (Fin 100))))"
  using outputs_are_counts[of "Num (Fin 0)" "Num (Fin 1)" "Num (Fin 100)"]
  by (simp add: fgt_def)

text \<open>
  The claim as stated, that both are always integers, fails where the target is 100 per
  cent and a class has been missed: \<open>calculateAttendance(0, 1, 100)\<close> divides by
  \<open>1 - 1\<close> and returns \<open>needToAttend = Infinity\<close>.
\<close>

theorem outputs_are_counts_counterexample:
  "needToAttend (calculateAttendance (Num (Fin 0)) (Num (Fin 1)) (Num (Fin 100))) = PInf"
  by (simp add: calculateAttendance_def Let_def fdiv_def fmul_def fsub_def fadd_def fneg_def
      fge_def fgt_def fceil_def signed_zero_def signed_inf_def)

subsection \<open>A target of 100 per cent\<close>

text \<open>
  C5. When \<open>requiredPercent\<close> is 100, so that \<open>r = 1\<close>, and \<open>attended < total\<close> with
  \<open>total > 0\<close> (both doubles), the unsafe branch is taken, the denominator \<open>1 - r\<close> of its
  division is zero, and the function returns \<open>needToAttend = Infinity\<close> instead of a
  count.
\<close>

theorem full_target_unreachable:
  assumes "Number rp0 = Fin 100" "Number t0 = Fin t" "Number a0 = Fin a"
    and "is_double a" "is_double t" "a < t" "0 < t"
  shows "fsub (Fin 1) (fdiv (Number rp0) (Fin 100)) = Fin 0
       \<and> \<not> fge (fmul (fdiv (Number a0) (Number t0)) (Fin 100)) (Number rp0)
       \<and> needToAttend (calculateAttendance a0 t0 rp0) = PInf
       \<and> canBunk (calculateAttendance a0 t0 rp0) = Fin 0"
proof -
  have r: "fdiv (Fin 100) (Fin 100) = Fin 1" by (simp add: fdiv_def)
  have d: "fsub (Fin 1) (Fin 1) = Fin 0" by (simp add: fsub_def fadd_def fneg_def signed_zero_def)
  have pos: "\<not> fle (Number t0) (Fin 0)" using assms(2,7) by simp
  have lt: "flt (fmul (fdiv (Fin a) (Fin t)) (Fin 100)) (Fin 100)"
    by (rule percent_below_100[OF assms(4-7)])
  then have unsafe: "\<not> fge (fmul (fdiv (Number a0) (Number t0)) (Fin 100)) (Number rp0)"
    unfolding fge_def assms(1,2,3)
    by (cases "fmul (fdiv (Fin a) (Fin t)) (Fin 100)") (simp_all add: not_le)
  have t1: "fmul (Fin 1) (Fin t) = Fin t"
    using assms(5,7) by (simp add: fmul_def is_double_def)
  have gap: "2 powi (- 1074) \<le> t - a" by (rule double_difference_positive[OF assms(4,5,6)])
  have "round_double (2 powi (- 1074)) = Fin (2 powi (- 1074))"
    using is_double_pow2[of 1 "- 1074"] by (simp add: is_double_def)
  then have "fle (Fin (2 powi (- 1074))) (round_double (t - a))"
    using round_double_mono[OF gap] by simp
  moreover have "fsub (Fin t) (Fin a) = round_double (t - a)"
    using assms(6) by (auto simp add: fsub_def fadd_def fneg_def)
  ultimately have s: "fle (Fin (2 powi (- 1074))) (fsub (Fin t) (Fin a))" by simp
  have "fdiv (fsub (Fin t) (Fin a)) (Fin 0) = PInf"
    using s unfolding fdiv_zero_cases
    by (cases "fsub (Fin t) (Fin a)") (auto simp add: signed_inf_def)
  then have n: "needToAttend (calculateAttendance a0 t0 rp0) = PInf"
    unfolding calculateAttendance_unsafe[OF pos unsafe]
    by (simp add: Let_def assms(1,2,3) r d t1 fceil_def fgt_def)
  have c: "canBunk (calculateAttendance a0 t0 rp0) = Fin 0"
    unfolding calculateAttendance_unsafe[OF pos unsafe] by (simp add: Let_def)
  show ?thesis using unsafe n c by (simp add: assms(1) r d)
qed

theorem full_target_unreachable_witness:
  "needToAttend (calculateAttendance (Num (Fin 99)) (Num (Fin 100)) (Num (Fin 100))) = PInf
   \<and> fsub (Fin 1) (fdiv (Number (Num (Fin 100))) (Fin 100)) = Fin 0"
proof -
  have "is_double 99" "is_double 100"
    using is_double_int[of 99] is_double_int[of 100] by simp_all
  then show ?thesis
    using full_target_unreachable[of "Num (Fin 100)" "Num (Fin 100)" 100 "Num (Fin 99)" 99]
    by simp
qed

subsection \<open>Which of the two counts is positive\<close>

text \<open>
  C6, as the code has it. On every input, \<open>canBunk\<close> and \<open>needToAttend\<close> are never both
  positive. For integer counts with \<open>0 <= attended <= total\<close> and \<open>0 < total < 2^32\<close>,
  and a \<open>requiredPercent\<close> in \<open>(0, 100)\<close> whose fraction \<open>r\<close> is a binary fraction
  \<open>c / 2^s\<close> with \<open>s <= 10\<close>: \<open>needToAttend > 0\<close> exactly when \<open>attended / total < r\<close>,
  and \<open>canBunk > 0\<close> exactly when \<open>attended / (total + 1) >= r\<close>. So both are 0 not only
  at the threshold, but whenever \<open>attended / total >= r > attended / (total + 1)\<close>: at or
  above the target with less than one class to spare.
\<close>

theorem exactly_one_positive:
  fixes a t c :: int and s :: nat and r :: rat
  shows "\<not> (fgt (canBunk (calculateAttendance a0 t0 rp0)) (Fin 0)
          \<and> fgt (needToAttend (calculateAttendance a0 t0 rp0)) (Fin 0))
    \<and> (0 \<le> a \<and> a \<le> t \<and> 0 < t \<and> t < 2 ^ 32 \<and> 0 < c \<and> c < 2 ^ s \<and> s \<le> 10
         \<and> r = of_int c / 2 ^ s \<longrightarrow>
        (fgt (needToAttend (calculateAttendance (Num (Fin (of_int a))) (Num (Fin (of_int t)))
                              (Num (Fin (100 * r))))) (Fin 0)
           \<longleftrightarrow> of_int a / of_int t < r)
      \<and> (fgt (canBunk (calculateAttendance (Num (Fin (of_int a))) (Num (Fin (of_int t)))
                              (Num (Fin (100 * r))))) (Fin 0)
           \<longleftrightarrow> r \<le> of_int a / (of_int t + 1)))"
proof (intro conjI impI)
  show "\<not> (fgt (canBunk (calculateAttendance a0 t0 rp0)) (Fin 0)
          \<and> fgt (needToAttend (calculateAttendance a0 t0 rp0)) (Fin 0))"
    by (rule never_both_positive)
next
  assume h: "0 \<le> a \<and> a \<le> t \<and> 0 < t \<and> t < 2 ^ 32 \<and> 0 < c \<and> c < 2 ^ s \<and> s \<le> 10
         \<and> r = of_int c / 2 ^ s"
  then have a: "0 \<le> a" "a \<le> t" "0 < t" "t < 2 ^ 32" "0 < c" "c < 2 ^ s" "s \<le> 10"
    and r: "r = of_int c / 2 ^ s" by simp_all
  have cle: "c \<le> 2 ^ s" using a(6) by simp
  have rpos: "0 < r" using a(5) r by simp
  have tpos: "(0::rat) < of_int t" using a(3) by simp
  have apos: "(0::rat) \<le> of_int a" using a(1) by simp
  have shrink: "(of_int a :: rat) / (of_int t + 1) \<le> of_int a / of_int t"
    using tpos apos by (intro divide_left_mono) simp_all
  show "fgt (needToAttend (calculateAttendance (Num (Fin (of_int a))) (Num (Fin (of_int t)))
                              (Num (Fin (100 * r))))) (Fin 0)
           \<longleftrightarrow> of_int a / of_int t < r"
  proof (cases "of_int a / of_int t < r")
    case True
    then have u: "(of_int a :: rat) / of_int t < of_int c / 2 ^ s" unfolding r .
    show ?thesis
      using calculateAttendance_exact_unsafe(1)[OF a u] quotient_unsafe_exact(2)[OF a u] True
      unfolding r by (simp only: fgt_of_int_zero)
  next
    case False
    then have u: "of_int c / 2 ^ s \<le> (of_int a :: rat) / of_int t" unfolding r by simp
    show ?thesis
      using calculateAttendance_exact_safe(2)[OF a(1-5) cle a(7) u] False
      unfolding r by (simp add: fgt_def)
  qed
  show "fgt (canBunk (calculateAttendance (Num (Fin (of_int a))) (Num (Fin (of_int t)))
                              (Num (Fin (100 * r))))) (Fin 0)
           \<longleftrightarrow> r \<le> of_int a / (of_int t + 1)"
  proof (cases "of_int a / of_int t < r")
    case True
    then have u: "(of_int a :: rat) / of_int t < of_int c / 2 ^ s" unfolding r .
    have "\<not> r \<le> of_int a / (of_int t + 1)" using True shrink by simp
    then show ?thesis
      using calculateAttendance_exact_unsafe(2)[OF a u]
      unfolding r by (simp add: fgt_def)
  next
    case False
    then have u: "of_int c / 2 ^ s \<le> (of_int a :: rat) / of_int t" unfolding r by simp
    have t1: "(0::rat) < of_int t + 1" using tpos by simp
    have "0 < \<lfloor>(of_int a - r * of_int t) / r\<rfloor> \<longleftrightarrow> 1 \<le> (of_int a - r * of_int t) / r"
      by (simp add: less_floor_iff le_floor_iff flip: int_one_le_iff_zero_less)
    also have "\<dots> \<longleftrightarrow> r \<le> of_int a - r * of_int t"
      using rpos by (simp add: pos_le_divide_eq)
    also have "\<dots> \<longleftrightarrow> r * (of_int t + 1) \<le> of_int a" by (simp add: algebra_simps)
    also have "\<dots> \<longleftrightarrow> r \<le> of_int a / (of_int t + 1)"
      using t1 by (simp add: pos_le_divide_eq)
    finally have k: "0 < \<lfloor>(of_int a - r * of_int t) / r\<rfloor> \<longleftrightarrow> r \<le> of_int a / (of_int t + 1)" .
    show ?thesis
      using calculateAttendance_exact_safe(1)[OF a(1-5) cle a(7) u] k
      unfolding r by (simp only: fgt_of_int_zero)
  qed
qed

theorem exactly_one_positive_witness:
  "fgt (needToAttend (calculateAttendance (Num (Fin 50)) (Num (Fin 100)) (Num (Fin 75)))) (Fin 0)
   \<and> \<not> fgt (canBunk (calculateAttendance (Num (Fin 50)) (Num (Fin 100)) (Num (Fin 75)))) (Fin 0)"
  using exactly_one_positive[of "Num (Fin 50)" "Num (Fin 100)" "Num (Fin 75)" 50 100 3 2 "3 / 4"]
  by simp

text \<open>
  The claim as stated fails off the threshold: \<open>calculateAttendance(4, 5, 75)\<close> returns
  \<open>canBunk = 0\<close> and \<open>needToAttend = 0\<close>, with an attendance of 80 per cent.
\<close>

theorem exactly_one_positive_counterexample:
  "canBunk (calculateAttendance (Num (Fin 4)) (Num (Fin 5)) (Num (Fin 75))) = Fin 0
   \<and> needToAttend (calculateAttendance (Num (Fin 4)) (Num (Fin 5)) (Num (Fin 75))) = Fin 0
   \<and> (4::rat) / 5 * 100 \<noteq> 75"
  using calculateAttendance_exact_safe[of 4 5 3 2] by simp

subsection \<open>Monotonicity in \<open>attended\<close>\<close>

text \<open>
  C7. With \<open>total > 0\<close> and \<open>requiredPercent\<close> in \<open>(0, 100)\<close> fixed, for all
  \<open>attended\<close> values \<open>a1 <= a2\<close> in \<open>[0, total]\<close>, \<open>canBunk\<close> at \<open>a1\<close> is at most
  \<open>canBunk\<close> at \<open>a2\<close>, and \<open>needToAttend\<close> at \<open>a1\<close> is at least \<open>needToAttend\<close> at
  \<open>a2\<close>, also when \<open>a1\<close> is in the unsafe branch and \<open>a2\<close> in the safe one. This holds
  of the double arithmetic as it is, rounding included.
\<close>

theorem monotone_in_attended:
  assumes "Number rp0 = Fin p" "0 < p" "p < 100"
    and "Number t0 = Fin t" "0 < t"
    and "Number a1 = Fin x1" "Number a2 = Fin x2"
    and "0 \<le> x1" "x1 \<le> x2" "x2 \<le> t"
  shows "fle (canBunk (calculateAttendance a1 t0 rp0)) (canBunk (calculateAttendance a2 t0 rp0))
       \<and> fle (needToAttend (calculateAttendance a2 t0 rp0))
              (needToAttend (calculateAttendance a1 t0 rp0))"
proof -
  obtain r where r: "fdiv (Fin p) (Fin 100) = Fin r" "0 \<le> r" "r \<le> 1"
    using fraction_finite[of p] assms(2,3) by auto
  obtain d where d: "fsub (Fin 1) (Fin r) = Fin d" "0 \<le> d"
    using one_minus_finite[OF r(2,3)] by auto
  define P where "P = fmul (Fin r) (Fin t)"
  have P: "P \<noteq> NaN" unfolding P_def by (rule fmul_Fin_not_NaN)
  define cp where "cp x = fmul (fdiv (Fin x) (Fin t)) (Fin 100)" for x
  have pos: "\<not> fle (Number t0) (Fin 0)" using assms(4,5) by simp
  have cp_mono: "fle (cp x1) (cp x2)"
    unfolding cp_def using assms(5,9) by (intro fmul_mono fdiv_mono) simp_all
  have safe_mono: "fge (cp x1) (Fin p) \<Longrightarrow> fge (cp x2) (Fin p)"
    unfolding fge_def using cp_mono fle_trans by blast
  have S: "canBunk (calculateAttendance a t0 rp0) =
             (if fgt (ffloor (fdiv (fsub (Fin x) P) (Fin r))) (Fin 0)
              then ffloor (fdiv (fsub (Fin x) P) (Fin r)) else Fin 0)
           \<and> needToAttend (calculateAttendance a t0 rp0) = Fin 0"
    if "Number a = Fin x" "fge (cp x) (Fin p)" for a x
  proof -
    have "fge (fmul (fdiv (Number a) (Number t0)) (Fin 100)) (Number rp0)"
      using that by (simp add: cp_def assms(1,4))
    from calculateAttendance_safe[OF pos this] show ?thesis
      by (simp add: Let_def assms(1,4) that(1) r(1) P_def)
  qed
  have U: "needToAttend (calculateAttendance a t0 rp0) =
             (if fgt (fceil (fdiv (fsub P (Fin x)) (Fin d))) (Fin 0)
              then fceil (fdiv (fsub P (Fin x)) (Fin d)) else Fin 0)
           \<and> canBunk (calculateAttendance a t0 rp0) = Fin 0"
    if "Number a = Fin x" "\<not> fge (cp x) (Fin p)" for a x
  proof -
    have "\<not> fge (fmul (fdiv (Number a) (Number t0)) (Fin 100)) (Number rp0)"
      using that by (simp add: cp_def assms(1,4))
    from calculateAttendance_unsafe[OF pos this] show ?thesis
      by (simp add: Let_def assms(1,4) that(1) r(1) d(1) P_def)
  qed
  have c1: "fle (Fin 0) (canBunk (calculateAttendance a2 t0 rp0))"
    and n1: "fle (Fin 0) (needToAttend (calculateAttendance a1 t0 rp0))"
    by (intro is_count_nonneg calculateAttendance_counts)+
  show ?thesis
  proof (cases "fge (cp x1) (Fin p)")
    case True
    note s1 = S[OF assms(6) True] and s2 = S[OF assms(7) safe_mono[OF True]]
    have "fle (fsub (Fin x1) P) (fsub (Fin x2) P)" using assms(9) P by (rule fsub_mono_left)
    then show ?thesis
      using floor_clamp_fdiv_mono[OF _ r(2)] by (simp add: s1 s2)
  next
    case False
    note u1 = U[OF assms(6) False]
    show ?thesis
    proof (cases "fge (cp x2) (Fin p)")
      case True
      note s2 = S[OF assms(7) True]
      show ?thesis using c1 n1 by (simp add: u1 s2)
    next
      case F2: False
      note u2 = U[OF assms(7) F2]
      have "fle (fsub P (Fin x2)) (fsub P (Fin x1))" using assms(9) P by (rule fsub_mono_right)
      then show ?thesis
        using ceil_clamp_fdiv_mono[OF _ d(2)] by (simp add: u1 u2)
    qed
  qed
qed

theorem monotone_in_attended_witness:
  "fle (canBunk (calculateAttendance (Num (Fin 50)) (Num (Fin 100)) (Num (Fin 75))))
       (canBunk (calculateAttendance (Num (Fin 80)) (Num (Fin 100)) (Num (Fin 75))))
   \<and> fle (needToAttend (calculateAttendance (Num (Fin 80)) (Num (Fin 100)) (Num (Fin 75))))
          (needToAttend (calculateAttendance (Num (Fin 50)) (Num (Fin 100)) (Num (Fin 75))))"
  using monotone_in_attended[of "Num (Fin 75)" 75 "Num (Fin 100)" 100 "Num (Fin 50)" 50
      "Num (Fin 80)" 80]
  by simp

subsection \<open>Rounding for display\<close>

text \<open>
  C8. For \<open>total > 0\<close>, the \<open>currentPercent\<close> field is \<open>(attended / total) * 100\<close>
  rounded to two decimal places (the double read back from the decimal with two
  fractional digits that lies within 0.005 of it), while the branch, which the message
  and the non-zero count show, is decided by comparing the unrounded
  \<open>(attended / total) * 100\<close> with \<open>requiredPercent\<close>.
\<close>

theorem display_rounding_only:
  assumes "fgt (Number t0) (Fin 0)"
  shows "currentPercent (calculateAttendance a0 t0 rp0) =
           toFixed2 (fmul (fdiv (Number a0) (Number t0)) (Fin 100))
    \<and> (hd (message (calculateAttendance a0 t0 rp0)) = Lit ''You are safe. You can bunk around ''
         \<longleftrightarrow> fge (fmul (fdiv (Number a0) (Number t0)) (Fin 100)) (Number rp0))
    \<and> (hd (message (calculateAttendance a0 t0 rp0)) = Lit ''You need to attend around ''
         \<longleftrightarrow> \<not> fge (fmul (fdiv (Number a0) (Number t0)) (Fin 100)) (Number rp0))
    \<and> (needToAttend (calculateAttendance a0 t0 rp0) \<noteq> Fin 0
         \<longrightarrow> \<not> fge (fmul (fdiv (Number a0) (Number t0)) (Fin 100)) (Number rp0))
    \<and> (canBunk (calculateAttendance a0 t0 rp0) \<noteq> Fin 0
         \<longrightarrow> fge (fmul (fdiv (Number a0) (Number t0)) (Fin 100)) (Number rp0))
    \<and> (\<forall>q. fmul (fdiv (Number a0) (Number t0)) (Fin 100) = Fin q \<and> \<bar>q\<bar> < 10 ^ 21 \<longrightarrow>
          (\<exists>k::int. \<bar>of_int k / 100 - q\<bar> \<le> 1 / 200 \<and>
             currentPercent (calculateAttendance a0 t0 rp0) =
               (if k = 0 \<and> q < 0 then NZero else round_double (of_int k / 100))))"
proof -
  have nz: "\<not> fle (Number t0) (Fin 0)"
    using assms by (cases "Number t0") (simp_all add: fgt_def)
  have cp: "currentPercent (calculateAttendance a0 t0 rp0) =
           toFixed2 (fmul (fdiv (Number a0) (Number t0)) (Fin 100))"
    by (rule calculateAttendance_currentPercent[OF nz])
  have dec: "\<forall>q. fmul (fdiv (Number a0) (Number t0)) (Fin 100) = Fin q \<and> \<bar>q\<bar> < 10 ^ 21 \<longrightarrow>
          (\<exists>k::int. \<bar>of_int k / 100 - q\<bar> \<le> 1 / 200 \<and>
             currentPercent (calculateAttendance a0 t0 rp0) =
               (if k = 0 \<and> q < 0 then NZero else round_double (of_int k / 100)))"
    using toFixed2_two_decimals by (auto simp only: cp)
  show ?thesis
    using nz cp dec by (simp add: calculateAttendance_def Let_def)
qed

text \<open>
  With 2 classes attended out of 3 and a target of 66.67, the displayed 66.67 reaches the
  target, and the function still takes the branch of the unrounded 66.666...
\<close>

theorem display_rounding_only_witness:
  "fgt (Number (Num (Fin 3))) (Fin 0)
   \<and> currentPercent (calculateAttendance (Num (Fin 2)) (Num (Fin 3)) (Num (Fin (4691484174324859 / 70368744177664)))) = Fin (4691484174324859 / 70368744177664)
   \<and> fge (currentPercent (calculateAttendance (Num (Fin 2)) (Num (Fin 3)) (Num (Fin (4691484174324859 / 70368744177664))))) (Fin (4691484174324859 / 70368744177664))
   \<and> hd (message (calculateAttendance (Num (Fin 2)) (Num (Fin 3)) (Num (Fin (4691484174324859 / 70368744177664)))))
       = Lit ''You need to attend around ''"
  using display_rounding_only[of "Num (Fin 3)" "Num (Fin 2)" "Num (Fin (4691484174324859 / 70368744177664))"]
  by (simp add: ev_2_3 ev_2_3_pct ev_2_3_fixed fge_def fgt_def)

subsection \<open>POST /api/subjects\<close>

text \<open>
  C9, as the code has it. For every request body that passes the required-fields check,
  a falsy \<open>requiredPercent\<close> (absent, \<open>null\<close>, \<open>false\<close>, \<open>0\<close>, \<open>-0\<close>, NaN or the empty
  string) is replaced by 75 in the fields passed to \<open>Subject.create\<close>, and a truthy
  one is passed unchanged; so the value passed is always truthy, and is never the number
  0.
\<close>

theorem falsy_requiredPercent_default:
  assumes "new_subject body = Inr sub"
  shows "(\<not> truthy (field body ''requiredPercent'') \<longrightarrow>
            requiredPercent sub = Prim (Num (Fin 75)))
       \<and> (truthy (field body ''requiredPercent'') \<longrightarrow>
            requiredPercent sub = field body ''requiredPercent'')
       \<and> truthy (requiredPercent sub)
       \<and> requiredPercent sub \<noteq> Prim (Num (Fin 0))
       \<and> requiredPercent sub \<noteq> Prim (Num NZero)"
  using assms by (auto simp add: new_subject_def Let_def split: if_splits)

theorem falsy_requiredPercent_default_witness:
  "new_subject (Map.empty(''subjectName'' \<mapsto> Prim (Str ''Maths''),
       ''total'' \<mapsto> Prim (Num (Fin 10)), ''attended'' \<mapsto> Prim (Num (Fin 8)),
       ''requiredPercent'' \<mapsto> Prim (Num (Fin 0))))
     = Inr \<lparr>subjectName = Prim (Str ''Maths''), total = Prim (Num (Fin 10)),
            attended = Prim (Num (Fin 8)), requiredPercent = Prim (Num (Fin 75))\<rparr>
   \<and> \<not> truthy (Prim (Num (Fin 0)))
   \<and> requiredPercent \<lparr>subjectName = Prim (Str ''Maths''), total = Prim (Num (Fin 10)),
            attended = Prim (Num (Fin 8)), requiredPercent = Prim (Num (Fin 75))\<rparr>
       = Prim (Num (Fin 75))"
proof -
  have 1: "new_subject (Map.empty(''subjectName'' \<mapsto> Prim (Str ''Maths''),
       ''total'' \<mapsto> Prim (Num (Fin 10)), ''attended'' \<mapsto> Prim (Num (Fin 8)),
       ''requiredPercent'' \<mapsto> Prim (Num (Fin 0))))
     = Inr \<lparr>subjectName = Prim (Str ''Maths''), total = Prim (Num (Fin 10)),
            attended = Prim (Num (Fin 8)), requiredPercent = Prim (Num (Fin 75))\<rparr>"
    by (simp add: new_subject_def field_def Let_def)
  show ?thesis using falsy_requiredPercent_default[OF 1] 1 by simp
qed

text \<open>
  The claim's consequence, that no subject can be created with \<open>requiredPercent\<close>
  equal to 0, does not follow: the string \<open>"0"\<close> is truthy, passes through unchanged,
  and its value as a number, which is what a field of the schema's type \<open>Number\<close> holds
  and what \<open>calculateAttendance\<close> computes with, is 0.
\<close>

theorem falsy_requiredPercent_counterexample:
  "new_subject (Map.empty(''subjectName'' \<mapsto> Prim (Str ''Maths''),
       ''total'' \<mapsto> Prim (Num (Fin 10)), ''attended'' \<mapsto> Prim (Num (Fin 8)),
       ''requiredPercent'' \<mapsto> Prim (Str ''0'')))
     = Inr \<lparr>subjectName = Prim (Str ''Maths''), total = Prim (Num (Fin 10)),
            attended = Prim (Num (Fin 8)), requiredPercent = Prim (Str ''0'')\<rparr>
   \<and> Number (Str ''0'') = Fin 0"
  by (simp add: new_subject_def field_def Let_def string_defs)

text \<open>
  C10, as the code has it. When \<open>req.body\<close> is defined, the handler answers 400 with
  \<open>{error: "Missing required fields"}\<close> exactly when \<open>subjectName\<close> is absent or
  falsy (the empty string included) or \<open>total\<close> or \<open>attended\<close> is \<open>null\<close> or
  \<open>undefined\<close>; on that path \<open>Subject.create\<close> is not called and the store is
  unchanged. A numeric \<open>total\<close> or \<open>attended\<close>, 0 included, passes the check, and the
  handler calls \<open>Subject.create\<close> with them. When \<open>req.body\<close> is \<open>undefined\<close>, the
  destructuring throws, and the handler answers 500 with
  \<open>{error: "Failed to create subject"}\<close>, never 400, the store unchanged.
\<close>

theorem missing_required_fields:
  "(status (fst (post_subjects create body db)) = 400 \<longleftrightarrow>
      (case body of None \<Rightarrow> False
       | Some props \<Rightarrow> \<not> truthy (field props ''subjectName'') \<or> eq_null (field props ''total'')
           \<or> eq_null (field props ''attended'')))
   \<and> (body = None \<longrightarrow>
      post_subjects create body db =
        (\<lparr>status = 500, reply = Error ''Failed to create subject''\<rparr>, db))
   \<and> (body = Some props \<and> (\<not> truthy (field props ''subjectName'')
        \<or> eq_null (field props ''total'') \<or> eq_null (field props ''attended'')) \<longrightarrow>
      post_subjects create body db =
        (\<lparr>status = 400, reply = Error ''Missing required fields''\<rparr>, db))
   \<and> (body = Some props \<and> truthy (field props ''subjectName'')
        \<and> field props ''total'' = Prim (Num t) \<and> field props ''attended'' = Prim (Num a) \<longrightarrow>
      status (fst (post_subjects create body db)) \<noteq> 400 \<and>
      (\<exists>sub. new_subject props = Inr sub \<and> total sub = Prim (Num t)
         \<and> attended sub = Prim (Num a) \<and>
         post_subjects create body db =
           (case create sub db of
              None \<Rightarrow> (\<lparr>status = 500, reply = Error ''Failed to create subject''\<rparr>, db)
            | Some (subject, db') \<Rightarrow>
                (\<lparr>status = 201,
                  reply = Created subject
                    (calculateAttendance (doc_attended subject) (doc_total subject)
                       (doc_requiredPercent subject))\<rparr>, db'))))"
proof (intro conjI impI)
  show "status (fst (post_subjects create body db)) = 400 \<longleftrightarrow>
      (case body of None \<Rightarrow> False
       | Some props \<Rightarrow> \<not> truthy (field props ''subjectName'') \<or> eq_null (field props ''total'')
           \<or> eq_null (field props ''attended''))"
  proof (cases body)
    case None
    then show ?thesis by (simp add: post_subjects_def)
  next
    case (Some p)
    then show ?thesis
      by (auto simp add: post_subjects_def new_subject_def Let_def split: option.splits)
  qed
next
  assume "body = None"
  then show "post_subjects create body db =
        (\<lparr>status = 500, reply = Error ''Failed to create subject''\<rparr>, db)"
    by (simp add: post_subjects_def)
next
  assume "body = Some props \<and> (\<not> truthy (field props ''subjectName'')
        \<or> eq_null (field props ''total'') \<or> eq_null (field props ''attended''))"
  then show "post_subjects create body db =
        (\<lparr>status = 400, reply = Error ''Missing required fields''\<rparr>, db)"
    by (simp add: post_subjects_def new_subject_rejected)
next
  assume h: "body = Some props \<and> truthy (field props ''subjectName'')
        \<and> field props ''total'' = Prim (Num t) \<and> field props ''attended'' = Prim (Num a)"
  then show "status (fst (post_subjects create body db)) \<noteq> 400"
    by (auto simp add: post_subjects_def new_subject_def Let_def split: option.splits)
next
  assume h: "body = Some props \<and> truthy (field props ''subjectName'')
        \<and> field props ''total'' = Prim (Num t) \<and> field props ''attended'' = Prim (Num a)"
  then have "new_subject props =
           Inr \<lparr>subjectName = field props ''subjectName'', total = field props ''total'',
                attended = field props ''attended'',
                requiredPercent = (if truthy (field props ''requiredPercent'')
                                   then field props ''requiredPercent''
                                   else Prim (Num (Fin 75)))\<rparr>"
    by (intro new_subject_accepted) simp_all
  then show "\<exists>sub. new_subject props = Inr sub \<and> total sub = Prim (Num t)
         \<and> attended sub = Prim (Num a) \<and>
         post_subjects create body db =
           (case create sub db of
              None \<Rightarrow> (\<lparr>status = 500, reply = Error ''Failed to create subject''\<rparr>, db)
            | Some (subject, db') \<Rightarrow>
                (\<lparr>status = 201,
                  reply = Created subject
                    (calculateAttendance (doc_attended subject) (doc_total subject)
                       (doc_requiredPercent subject))\<rparr>, db'))"
    using h by (simp add: post_subjects_def)
qed

text \<open>
  The examples run the handler on a store that lists the documents created, newest
  first, with a \<open>create\<close> that accepts a string as the name and numbers in the numeric
  fields.
\<close>

theorem missing_required_fields_witness:
  "post_subjects
     (\<lambda>f db. case (subjectName f, total f, attended f, requiredPercent f) of
        (Prim (Str n), Prim (Num t), Prim (Num a), Prim (Num r)) \<Rightarrow>
          Some (\<lparr>doc_subjectName = Str n, doc_total = Num t, doc_attended = Num a,
                  doc_requiredPercent = Num r\<rparr>,
                \<lparr>doc_subjectName = Str n, doc_total = Num t, doc_attended = Num a,
                  doc_requiredPercent = Num r\<rparr> # db)
      | _ \<Rightarrow> None)
     (Some (Map.empty(''subjectName'' \<mapsto> Prim (Str ''''), ''total'' \<mapsto> Prim (Num (Fin 5)),
        ''attended'' \<mapsto> Prim (Num (Fin 4))))) []
     = (\<lparr>status = 400, reply = Error ''Missing required fields''\<rparr>, [])
   \<and> post_subjects
     (\<lambda>f db. case (subjectName f, total f, attended f, requiredPercent f) of
        (Prim (Str n), Prim (Num t), Prim (Num a), Prim (Num r)) \<Rightarrow>
          Some (\<lparr>doc_subjectName = Str n, doc_total = Num t, doc_attended = Num a,
                  doc_requiredPercent = Num r\<rparr>,
                \<lparr>doc_subjectName = Str n, doc_total = Num t, doc_attended = Num a,
                  doc_requiredPercent = Num r\<rparr> # db)
      | _ \<Rightarrow> None)
     (Some (Map.empty(''subjectName'' \<mapsto> Prim (Str ''Maths''), ''total'' \<mapsto> Prim (Num (Fin 0)),
        ''attended'' \<mapsto> Prim (Num (Fin 0))))) []
     = (\<lparr>status = 201,
         reply = Created
           \<lparr>doc_subjectName = Str ''Maths'', doc_total = Num (Fin 0),
            doc_attended = Num (Fin 0), doc_requiredPercent = Num (Fin 75)\<rparr>
           \<lparr>currentPercent = Fin 0, canBunk = Fin 0, needToAttend = Fin 0,
            message = [Lit ''No classes conducted yet.'']\<rparr>\<rparr>,
        [\<lparr>doc_subjectName = Str ''Maths'', doc_total = Num (Fin 0),
          doc_attended = Num (Fin 0), doc_requiredPercent = Num (Fin 75)\<rparr>])"
proof -
  let ?create = "\<lambda>f db. case (subjectName f, total f, attended f, requiredPercent f) of
        (Prim (Str n), Prim (Num t), Prim (Num a), Prim (Num r)) \<Rightarrow>
          Some (\<lparr>doc_subjectName = Str n, doc_total = Num t, doc_attended = Num a,
                  doc_requiredPercent = Num r\<rparr>,
                \<lparr>doc_subjectName = Str n, doc_total = Num t, doc_attended = Num a,
                  doc_requiredPercent = Num r\<rparr> # db)
      | _ \<Rightarrow> None"
  let ?b1 = "Map.empty(''subjectName'' \<mapsto> Prim (Str ''''), ''total'' \<mapsto> Prim (Num (Fin 5)),
        ''attended'' \<mapsto> Prim (Num (Fin 4)))"
  let ?b2 = "Map.empty(''subjectName'' \<mapsto> Prim (Str ''Maths''), ''total'' \<mapsto> Prim (Num (Fin 0)),
        ''attended'' \<mapsto> Prim (Num (Fin 0)))"
  have 1: "post_subjects ?create (Some ?b1) [] =
             (\<lparr>status = 400, reply = Error ''Missing required fields''\<rparr>, [])"
    using missing_required_fields[where body = "Some ?b1" and props = ?b1 and create = ?create
        and db = "[]" and t = "Fin 5" and a = "Fin 4"]
    by (simp add: field_def)
  have "\<exists>sub. new_subject ?b2 = Inr sub \<and> total sub = Prim (Num (Fin 0))
         \<and> attended sub = Prim (Num (Fin 0)) \<and>
         post_subjects ?create (Some ?b2) [] =
           (case ?create sub [] of
              None \<Rightarrow> (\<lparr>status = 500, reply = Error ''Failed to create subject''\<rparr>, [])
            | Some (subject, db') \<Rightarrow>
                (\<lparr>status = 201,
                  reply = Created subject
                    (calculateAttendance (doc_attended subject) (doc_total subject)
                       (doc_requiredPercent subject))\<rparr>, db'))"
    using missing_required_fields[where body = "Some ?b2" and props = ?b2 and create = ?create
        and db = "[]" and t = "Fin 0" and a = "Fin 0"]
    by (simp add: field_def)
  then have 2: "post_subjects ?create (Some ?b2) [] =
     (\<lparr>status = 201,
         reply = Created
           \<lparr>doc_subjectName = Str ''Maths'', doc_total = Num (Fin 0),
            doc_attended = Num (Fin 0), doc_requiredPercent = Num (Fin 75)\<rparr>
           \<lparr>currentPercent = Fin 0, canBunk = Fin 0, needToAttend = Fin 0,
            message = [Lit ''No classes conducted yet.'']\<rparr>\<rparr>,
        [\<lparr>doc_subjectName = Str ''Maths'', doc_total = Num (Fin 0),
          doc_attended = Num (Fin 0), doc_requiredPercent = Num (Fin 75)\<rparr>])"
    by (auto simp add: new_subject_def field_def Let_def calculateAttendance_zero)
  show ?thesis using 1 2 by simp
qed

text \<open>
  The claim as stated, 400 whenever \<open>subjectName\<close> is absent, fails for a request
  without a parsed body: \<open>req.body\<close> is \<open>undefined\<close>, no \<open>subjectName\<close>, \<open>total\<close> or
  \<open>attended\<close> came with it, and the answer is 500.
\<close>

theorem missing_required_fields_counterexample:
  "post_subjects
     (\<lambda>f db. case (subjectName f, total f, attended f, requiredPercent f) of
        (Prim (Str n), Prim (Num t), Prim (Num a), Prim (Num r)) \<Rightarrow>
          Some (\<lparr>doc_subjectName = Str n, doc_total = Num t, doc_attended = Num a,
                  doc_requiredPercent = Num r\<rparr>,
                \<lparr>doc_subjectName = Str n, doc_total = Num t, doc_attended = Num a,
                  doc_requiredPercent = Num r\<rparr> # db)
      | _ \<Rightarrow> None)
     None []
     = (\<lparr>status = 500, reply = Error ''Failed to create subject''\<rparr>, [])
   \<and> status (fst (post_subjects
     (\<lambda>f db. case (subjectName f, total f, attended f, requiredPercent f) of
        (Prim (Str n), Prim (Num t), Prim (Num a), Prim (Num r)) \<Rightarrow>
          Some (\<lparr>doc_subjectName = Str n, doc_total = Num t, doc_attended = Num a,
                  doc_requiredPercent = Num r\<rparr>,
                \<lparr>doc_subjectName = Str n, doc_total = Num t, doc_attended = Num a,
                  doc_requiredPercent = Num r\<rparr> # db)
      | _ \<Rightarrow> None)
     None [])) \<noteq> 400"
  by (simp add: post_subjects_def)

end
